theory Spec2Isabelle
  imports Main
begin

section \<open>Strings as the validator uses them\<close>

text \<open>
  The validator \<^verbatim>\<open>tools/biger_validator.py\<close> works on Python strings. A Python string
  is modelled as a \<^typ>\<open>string\<close>; a \<^typ>\<open>char\<close> stands for the code point of the
  same number, so the model covers the documents whose code points are all below 256
  (every character of the notation itself is ASCII).
\<close>

definition isspace :: "char \<Rightarrow> bool" where
  \<comment> \<open>\<^verbatim>\<open>str.isspace\<close> on one character; the same set is what \<^verbatim>\<open>\s\<close> matches in \<^verbatim>\<open>re\<close>.\<close>
  "isspace c = (of_char c \<in> {9, 10, 11, 12, 13, 28, 29, 30, 31, 32, 133, 160 :: nat})"

definition strip :: "string \<Rightarrow> string" where
  \<comment> \<open>\<^verbatim>\<open>s.strip()\<close>\<close>
  "strip s = rev (dropWhile isspace (rev (dropWhile isspace s)))"

definition startswith :: "string \<Rightarrow> string \<Rightarrow> bool" where
  \<comment> \<open>\<^verbatim>\<open>s.startswith(p)\<close>\<close>
  "startswith s p = (take (length p) s = p)"

definition endswith :: "string \<Rightarrow> string \<Rightarrow> bool" where
  \<comment> \<open>\<^verbatim>\<open>s.endswith(p)\<close>\<close>
  "endswith s p = (length p \<le> length s \<and> drop (length s - length p) s = p)"

definition count :: "string \<Rightarrow> char \<Rightarrow> int" where
  \<comment> \<open>\<^verbatim>\<open>s.count(c)\<close> for a one-character \<^verbatim>\<open>c\<close>\<close>
  "count s c = int (length (filter (\<lambda>x. x = c) s))"

fun contains :: "string \<Rightarrow> string \<Rightarrow> bool" where
  \<comment> \<open>\<^verbatim>\<open>sub in s\<close>\<close>
  "contains [] sub = (sub = [])"
| "contains (c # cs) sub = (startswith (c # cs) sub \<or> contains cs sub)"

function split_from :: "string \<Rightarrow> string \<Rightarrow> string \<Rightarrow> string list" where
  \<comment> \<open>the segment \<^verbatim>\<open>cur\<close> collected so far, then the rest of the string\<close>
  "split_from sep cur [] = [cur]"
| "split_from sep cur (c # cs) =
     (if sep \<noteq> [] \<and> startswith (c # cs) sep
      then cur # split_from sep [] (drop (length sep) (c # cs))
      else split_from sep (cur @ [c]) cs)"
  by pat_completeness auto
termination
  by (relation "measure (\<lambda>(sep, cur, s). length s)") (auto simp: neq_Nil_conv)

definition split :: "string \<Rightarrow> string \<Rightarrow> string list" where
  \<comment> \<open>\<^verbatim>\<open>s.split(sep)\<close> for a non-empty separator: cut at each occurrence, left to right\<close>
  "split s sep = split_from sep [] s"

definition linebreak :: "char \<Rightarrow> bool" where
  \<comment> \<open>the line boundaries of \<^verbatim>\<open>str.splitlines\<close> below code point 256\<close>
  "linebreak c = (of_char c \<in> {10, 11, 12, 13, 28, 29, 30, 133 :: nat})"

fun lines_from :: "string \<Rightarrow> string \<Rightarrow> string list" where
  \<comment> \<open>the line \<^verbatim>\<open>cur\<close> collected so far, then the rest of the text\<close>
  "lines_from cur [] = (if cur = [] then [] else [cur])"
| "lines_from cur [c] = (if linebreak c then [cur] else [cur @ [c]])"
| "lines_from cur (c # d # cs) =
     (if c = CHR 0x0D \<and> d = CHR 0x0A then cur # lines_from [] cs
      else if linebreak c then cur # lines_from [] (d # cs)
      else lines_from (cur @ [c]) (d # cs))"

definition splitlines :: "string \<Rightarrow> string list" where
  \<comment> \<open>\<^verbatim>\<open>text.splitlines()\<close>: the line breaks are dropped, \<^verbatim>\<open>\r\n\<close> is one break, and a
      final break opens no further line\<close>
  "splitlines text = lines_from [] text"

function str_nat :: "nat \<Rightarrow> string" where
  \<comment> \<open>the decimal digits an f-string writes for a non-negative integer\<close>
  "str_nat n =
     (if n < 10 then [char_of (48 + n)]
      else str_nat (n div 10) @ [char_of (48 + n mod 10)])"
  by pat_completeness auto
termination
  by (relation "measure id") auto

declare str_nat.simps [simp del]

section \<open>Regular expressions\<close>

text \<open>
  The patterns of the validator use literals, \<^verbatim>\<open>.\<close>, \<^verbatim>\<open>\s\<close>, character classes,
  alternation, \<^verbatim>\<open>*\<close> and \<^verbatim>\<open>+\<close>. None has a back-reference or a look-around, so
  whether \<^verbatim>\<open>re.match\<close> or \<^verbatim>\<open>re.search\<close> finds a match is a question about the
  language of the pattern; it is decided here by derivatives.
\<close>

datatype regex =
    Fail
  | Eps
  | Sym "char \<Rightarrow> bool"
  | Then regex regex
  | Or regex regex
  | Rep regex

primrec lit :: "string \<Rightarrow> regex" where
  \<comment> \<open>a run of literal characters\<close>
  "lit [] = Eps"
| "lit (c # cs) = Then (Sym (\<lambda>x. x = c)) (lit cs)"

definition dot :: regex where
  \<comment> \<open>\<^verbatim>\<open>.\<close>: any character but the newline\<close>
  "dot = Sym (\<lambda>x. x \<noteq> CHR 0x0A)"

definition plus :: "regex \<Rightarrow> regex" where
  \<comment> \<open>\<^verbatim>\<open>r+\<close>\<close>
  "plus r = Then r (Rep r)"

primrec alts :: "regex list \<Rightarrow> regex" where
  \<comment> \<open>\<^verbatim>\<open>r1|r2|...\<close>\<close>
  "alts [] = Fail"
| "alts (r # rs) = Or r (alts rs)"

primrec nullable :: "regex \<Rightarrow> bool" where
  "nullable Fail = False"
| "nullable Eps = True"
| "nullable (Sym P) = False"
| "nullable (Then r s) = (nullable r \<and> nullable s)"
| "nullable (Or r s) = (nullable r \<or> nullable s)"
| "nullable (Rep r) = True"

primrec deriv :: "char \<Rightarrow> regex \<Rightarrow> regex" where
  "deriv c Fail = Fail"
| "deriv c Eps = Fail"
| "deriv c (Sym P) = (if P c then Eps else Fail)"
| "deriv c (Then r s) =
     (if nullable r then Or (Then (deriv c r) s) (deriv c s) else Then (deriv c r) s)"
| "deriv c (Or r s) = Or (deriv c r) (deriv c s)"
| "deriv c (Rep r) = Then (deriv c r) (Rep r)"

fun re_match :: "regex \<Rightarrow> string \<Rightarrow> bool" where
  \<comment> \<open>\<^verbatim>\<open>pattern.match(s)\<close> is not \<^verbatim>\<open>None\<close>: some prefix of \<^verbatim>\<open>s\<close> matches\<close>
  "re_match r [] = nullable r"
| "re_match r (c # cs) = (nullable r \<or> re_match (deriv c r) cs)"

fun re_search :: "regex \<Rightarrow> string \<Rightarrow> bool" where
  \<comment> \<open>\<^verbatim>\<open>re.search(pattern, s)\<close> is not \<^verbatim>\<open>None\<close>: a match starts at some position\<close>
  "re_search r [] = nullable r"
| "re_search r (c # cs) = (re_match r (c # cs) \<or> re_search r cs)"

definition in_range :: "char \<Rightarrow> char \<Rightarrow> char \<Rightarrow> bool" where
  \<comment> \<open>\<^verbatim>\<open>c\<close> lies in the class range \<^verbatim>\<open>lo-hi\<close>\<close>
  "in_range lo hi c = ((of_char lo :: nat) \<le> of_char c \<and> (of_char c :: nat) \<le> of_char hi)"

definition ident_first :: "char \<Rightarrow> bool" where
  \<comment> \<open>\<^verbatim>\<open>[A-Za-z_]\<close>\<close>
  "ident_first c = (in_range CHR ''A'' CHR ''Z'' c \<or> in_range CHR ''a'' CHR ''z'' c \<or> c = CHR ''_'')"

definition ident_rest :: "char \<Rightarrow> bool" where
  \<comment> \<open>\<^verbatim>\<open>[A-Za-z0-9_]\<close>\<close>
  "ident_rest c = (in_range CHR ''A'' CHR ''Z'' c \<or> in_range CHR ''a'' CHR ''z'' c
     \<or> in_range CHR ''0'' CHR ''9'' c \<or> c = CHR ''_'')"

definition identifier_re :: regex where
  \<comment> \<open>\<^verbatim>\<open>([A-Za-z_][A-Za-z0-9_]*)\<close>\<close>
  "identifier_re = Then (Sym ident_first) (Rep (Sym ident_rest))"

text \<open>
  The patterns are only ever applied with \<^verbatim>\<open>match\<close>, which anchors at the start of the
  string, so their leading \<^verbatim>\<open>^\<close> adds nothing and is not written.
\<close>

definition ENTITY_DECL :: regex where
  \<comment> \<open>\<^verbatim>\<open>^entity\s+([A-Za-z_][A-Za-z0-9_]*)\<close>\<close>
  "ENTITY_DECL = Then (lit ''entity'') (Then (plus (Sym isspace)) identifier_re)"

definition WEAK_ENTITY_DECL :: regex where
  \<comment> \<open>\<^verbatim>\<open>^weak entity\s+([A-Za-z_][A-Za-z0-9_]*)\<close>\<close>
  "WEAK_ENTITY_DECL = Then (lit ''weak entity'') (Then (plus (Sym isspace)) identifier_re)"

definition REL_DECL :: regex where
  \<comment> \<open>\<^verbatim>\<open>^relationship\s+([A-Za-z_][A-Za-z0-9_]*)\<close>\<close>
  "REL_DECL = Then (lit ''relationship'') (Then (plus (Sym isspace)) identifier_re)"

definition NOTATION_DECL :: regex where
  \<comment> \<open>\<^verbatim>\<open>^notation\s*=\s*([A-Za-z_]+)\<close>\<close>
  "NOTATION_DECL =
     Then (lit ''notation'') (Then (Rep (Sym isspace)) (Then (lit ''='')
       (Then (Rep (Sym isspace)) (plus (Sym ident_first)))))"

definition range_re :: "char \<Rightarrow> char \<Rightarrow> regex" where
  \<comment> \<open>\<^verbatim>\<open>a\..b\<close>: the character \<^verbatim>\<open>a\<close>, a literal dot, any character, the character \<^verbatim>\<open>b\<close>\<close>
  "range_re a b = Then (lit [a, CHR ''.'']) (Then dot (lit [b]))"

definition card_alternatives :: regex where
  \<comment> \<open>\<^verbatim>\<open>(?:0\..N|1\..N|0\..1|1\..1|N|1)\<close>\<close>
  "card_alternatives =
     alts [range_re CHR ''0'' CHR ''N'', range_re CHR ''1'' CHR ''N'',
           range_re CHR ''0'' CHR ''1'', range_re CHR ''1'' CHR ''1'',
           lit ''N'', lit ''1'']"

definition card_re :: regex where
  \<comment> \<open>\<^verbatim>\<open>\[(?:0\..N|1\..N|0\..1|1\..1|N|1)\]\<close>\<close>
  "card_re = Then (lit ''['') (Then card_alternatives (lit '']''))"

definition card_role_re :: regex where
  \<comment> \<open>\<^verbatim>\<open>\[(?:0\..N|1\..N|0\..1|1\..1|N|1)\s*\|\<close>\<close>
  "card_role_re = Then (lit ''['') (Then card_alternatives (Then (Rep (Sym isspace)) (lit ''|'')))"

section \<open>The issues\<close>

definition dquote :: char where
  "dquote = CHR 0x22"

definition header_msg :: string where
  "header_msg = ''Missing or malformed header: file should start with '' @ [dquote]
     @ ''erdiagram ModelName'' @ [dquote]"

definition notation_msg :: string where
  "notation_msg =
     ''Missing notation declaration (e.g. notation=crowsfoot) in the first 10 lines''"

definition unmatched_msg :: "nat \<Rightarrow> string" where
  "unmatched_msg i = ''Unmatched closing brace on line '' @ str_nat i"

definition mismatched_msg :: string where
  "mismatched_msg = ''Mismatched braces: some blocks are not closed''"

definition entity_msg :: "nat \<Rightarrow> string \<Rightarrow> string" where
  "entity_msg i s = ''Invalid entity declaration on line '' @ str_nat i @ '': '' @ [dquote]
     @ s @ [dquote]"

definition relationship_msg :: "nat \<Rightarrow> string \<Rightarrow> string" where
  "relationship_msg i s = ''Invalid relationship declaration on line '' @ str_nat i @ '': ''
     @ [dquote] @ s @ [dquote]"

definition cardinality_msg :: "nat \<Rightarrow> string \<Rightarrow> string" where
  "cardinality_msg i s = ''Unrecognized cardinality on line '' @ str_nat i @ '': '' @ [dquote]
     @ s @ [dquote]"

definition quoted_msg :: "nat \<Rightarrow> string" where
  "quoted_msg i = ''Quoted identifiers or roles found on line '' @ str_nat i
     @ '': bigER prefers unquoted names; using quotes may cause parser errors''"

section \<open>The checks of \<^verbatim>\<open>check_file\<close>\<close>

text \<open>
  Each check takes the list \<^verbatim>\<open>issues\<close> built so far and returns it with its own
  findings appended. A \<^verbatim>\<open>for i, line in enumerate(lines, start=1)\<close> loop is a
  \<^const>\<open>foldl\<close> of the loop body over \<^term>\<open>enumerate 1 lines\<close>; the body takes and returns
  the variables the loop changes.
\<close>

definition check_header :: "string list \<Rightarrow> string list \<Rightarrow> string list" where
  "check_header lines issues =
     (case lines of
        [] \<Rightarrow> issues @ [header_msg]
      | first # _ \<Rightarrow>
          if \<not> startswith (strip first) ''erdiagram'' then issues @ [header_msg] else issues)"

definition check_notation :: "string list \<Rightarrow> string list \<Rightarrow> string list" where
  "check_notation lines issues =
     (if \<not> list_ex (\<lambda>line. startswith (strip line) ''notation='') (take 10 lines)
      then issues @ [notation_msg] else issues)"

definition brace_body :: "string list \<times> int \<Rightarrow> nat \<times> string \<Rightarrow> string list \<times> int" where
  "brace_body st il =
     (case st of (issues, open_braces) \<Rightarrow> case il of (i, line) \<Rightarrow>
        let open_braces = open_braces + count line CHR ''{'';
            open_braces = open_braces - count line CHR ''}''
        in if open_braces < 0 then (issues @ [unmatched_msg i], 0) else (issues, open_braces))"

definition check_braces :: "string list \<Rightarrow> string list \<Rightarrow> string list" where
  "check_braces lines issues =
     (case foldl brace_body (issues, 0) (enumerate 1 lines) of
        (issues, open_braces) \<Rightarrow>
          if open_braces \<noteq> 0 then issues @ [mismatched_msg] else issues)"

definition decl_body :: "string list \<Rightarrow> nat \<times> string \<Rightarrow> string list" where
  "decl_body issues il =
     (case il of (i, line) \<Rightarrow>
        let s = strip line;
            issues =
              (if startswith s ''entity '' \<or> startswith s ''weak entity ''
               then (if \<not> (re_match ENTITY_DECL s \<or> re_match WEAK_ENTITY_DECL s)
                     then issues @ [entity_msg i s] else issues)
               else issues)
        in if startswith s ''relationship ''
           then (if \<not> re_match REL_DECL s then issues @ [relationship_msg i s] else issues)
           else issues)"

definition check_decls :: "string list \<Rightarrow> string list \<Rightarrow> string list" where
  "check_decls lines issues = foldl decl_body issues (enumerate 1 lines)"

definition token_body :: "nat \<Rightarrow> string \<Rightarrow> string list \<Rightarrow> string \<Rightarrow> string list" where
  \<comment> \<open>the body of \<^verbatim>\<open>for t in tokens\<close>\<close>
  "token_body i line issues t =
     (if CHR ''['' \<in> set t \<and> CHR '']'' \<in> set t
      then (if \<not> re_search card_re t
            then (if CHR ''|'' \<in> set t \<and> re_search card_role_re t then issues
                  else issues @ [cardinality_msg i (strip line)])
            else issues)
      else issues)"

definition enter_rel :: "bool \<Rightarrow> string \<Rightarrow> bool" where
  \<comment> \<open>the first statement of the loop body: the flag as the cardinality test sees it\<close>
  "enter_rel rel_block line =
     (if startswith (strip line) ''relationship '' then True else rel_block)"

definition card_body :: "string list \<times> bool \<Rightarrow> nat \<times> string \<Rightarrow> string list \<times> bool" where
  "card_body st il =
     (case st of (issues, rel_block) \<Rightarrow> case il of (i, line) \<Rightarrow>
        let rel_block = enter_rel rel_block line
        in if rel_block
           then
             let issues =
                   (if contains line ''->''
                    then foldl (token_body i line) issues (split line ''->'')
                    else issues);
                 rel_block = (if endswith (strip line) ''}'' then False else rel_block)
             in (issues, rel_block)
           else (issues, rel_block))"

definition check_cardinality :: "string list \<Rightarrow> string list \<Rightarrow> string list" where
  "check_cardinality lines issues = fst (foldl card_body (issues, False) (enumerate 1 lines))"

text \<open>
  Three readings of that loop, for the statements about it: the flag at the cardinality
  test of a line, what the test appends for a line, and what the loop appends per line.
\<close>

definition rel_block_at :: "string list \<Rightarrow> nat \<Rightarrow> bool" where
  \<comment> \<open>the value of \<^verbatim>\<open>rel_block\<close> that \<^verbatim>\<open>if rel_block:\<close> reads on the line at index \<^verbatim>\<open>i\<close>,
      in the loop of \<^const>\<open>check_cardinality\<close>\<close>
  "rel_block_at lines i =
     enter_rel (snd (foldl card_body ([], False) (enumerate 1 (take i lines)))) (lines ! i)"

definition arrow_issues :: "nat \<Rightarrow> string \<Rightarrow> string list" where
  \<comment> \<open>what the cardinality test appends for one line it applies to\<close>
  "arrow_issues i line =
     (if contains line ''->'' then foldl (token_body i line) [] (split line ''->'') else [])"

definition applied :: "string list \<Rightarrow> nat \<times> string \<Rightarrow> string list" where
  \<comment> \<open>what the cardinality check appends on one numbered line of the document\<close>
  "applied lines il =
     (if rel_block_at lines (fst il - 1) then arrow_issues (fst il) (snd il) else [])"

definition quote_body :: "string list \<Rightarrow> nat \<times> string \<Rightarrow> string list" where
  "quote_body issues il =
     (case il of (i, line) \<Rightarrow> if dquote \<in> set line then issues @ [quoted_msg i] else issues)"

definition check_quotes :: "string list \<Rightarrow> string list \<Rightarrow> string list" where
  "check_quotes lines issues = foldl quote_body issues (enumerate 1 lines)"

definition check_lines :: "string list \<Rightarrow> string list" where
  \<comment> \<open>\<^verbatim>\<open>check_file\<close> from \<^verbatim>\<open>issues = []\<close> to \<^verbatim>\<open>return issues\<close>\<close>
  "check_lines lines =
     check_quotes lines (check_cardinality lines (check_decls lines
       (check_braces lines (check_notation lines (check_header lines [])))))"

text \<open>
  What a path names: nothing, something that \<^verbatim>\<open>read_text\<close> cannot read as UTF-8 text (a
  directory, a file without read permission, bytes that do not decode), or a file with
  its text. \<^verbatim>\<open>read_text\<close> turns \<^verbatim>\<open>\r\n\<close> and \<^verbatim>\<open>\r\<close> into \<^verbatim>\<open>\n\<close>; this changes no line of
  \<^verbatim>\<open>splitlines\<close>, for which each of the three is one line break, so \<^verbatim>\<open>Content\<close> may hold
  the text before or after that translation.
\<close>

datatype fs_entry = Absent | Unreadable | Content string

datatype error = FileNotFoundError | ReadError

definition check_file :: "(string \<Rightarrow> fs_entry) \<Rightarrow> string \<Rightarrow> error + string list" where
  \<comment> \<open>\<^verbatim>\<open>path.read_text\<close> raises on a path that cannot be read as UTF-8 text\<close>
  "check_file fs path =
     (case fs path of
        Absent \<Rightarrow> Inl FileNotFoundError
      | Unreadable \<Rightarrow> Inl ReadError
      | Content text \<Rightarrow> Inr (check_lines (splitlines text)))"

section \<open>The command line\<close>

definition usage_msg :: string where
  "usage_msg = ''Usage: biger_validator.py <path_to_erd_file>''"

definition pass_msg :: string where
  "pass_msg = ''PASS: No obvious syntax problems found by the lightweight validator.''"

datatype outcome = Exit "string list" nat | Raised error

definition main :: "(string \<Rightarrow> string) \<Rightarrow> (string \<Rightarrow> fs_entry) \<Rightarrow> string list \<Rightarrow> outcome" where
  \<comment> \<open>\<^verbatim>\<open>argv\<close> is \<^verbatim>\<open>sys.argv\<close>, \<^verbatim>\<open>fs\<close> the files by the argument that names them, and
      \<^verbatim>\<open>path_str\<close> the text of \<^verbatim>\<open>Path(arg)\<close>, which \<^verbatim>\<open>pathlib\<close> decides. The outcome is
      the lines printed to standard output with the exit status, or the exception that
      leaves the program.\<close>
  "main path_str fs argv =
     (if length argv \<noteq> 2 then Exit [usage_msg] 2
      else
        let p = argv ! 1
        in if fs p = Absent then Exit [''File not found: '' @ path_str p] 2
           else
             (case check_file fs p of
                Inl e \<Rightarrow> Raised e
              | Inr issues \<Rightarrow>
                  if issues = [] then Exit [pass_msg] 0
                  else Exit (''Found issues:'' # map (\<lambda>it. ''- '' @ it) issues) 1))"

section \<open>What the specification says, as predicates\<close>

text \<open>
  Lines are counted from 1 in the issues; the line with number \<^term>\<open>Suc i\<close> is
  \<^term>\<open>lines ! i\<close>.
\<close>

subsection \<open>Brace balancing\<close>

definition delta :: "string \<Rightarrow> int" where
  \<comment> \<open>what one line adds to the counter: its \<^verbatim>\<open>{\<close> minus its \<^verbatim>\<open>}\<close>\<close>
  "delta line = count line CHR ''{'' - count line CHR ''}''"

primrec counter :: "string list \<Rightarrow> nat \<Rightarrow> int" where
  \<comment> \<open>the counter once the first \<^verbatim>\<open>n\<close> lines are processed: a negative value is reset to 0\<close>
  "counter lines 0 = 0"
| "counter lines (Suc n) =
     (if counter lines n + delta (lines ! n) < 0 then 0
      else counter lines n + delta (lines ! n))"

definition dips :: "string list \<Rightarrow> nat \<Rightarrow> bool" where
  \<comment> \<open>the counter is negative right after line \<^verbatim>\<open>N\<close> (counted from 1), before the reset\<close>
  "dips lines N = (counter lines (N - 1) + delta (lines ! (N - 1)) < 0)"

definition brace_sum :: "string list \<Rightarrow> int" where
  \<comment> \<open>the plain running count over some lines: every \<^verbatim>\<open>{\<close> adds one, every \<^verbatim>\<open>}\<close> takes one\<close>
  "brace_sum lines = sum_list (map delta lines)"

definition braces_balanced :: "string list \<Rightarrow> bool" where
  \<comment> \<open>the running count is negative after no line and ends at 0\<close>
  "braces_balanced lines =
     (list_all (\<lambda>k. 0 \<le> brace_sum (take k lines)) [0..<Suc (length lines)]
      \<and> brace_sum lines = 0)"

subsection \<open>Declarations\<close>

definition letter :: "char \<Rightarrow> bool" where
  "letter c = (c \<in> set ''ABCDEFGHIJKLMNOPQRSTUVWXYZabcdefghijklmnopqrstuvwxyz'')"

definition digit :: "char \<Rightarrow> bool" where
  "digit c = (c \<in> set ''0123456789'')"

definition name_char :: "char \<Rightarrow> bool" where
  \<comment> \<open>a letter, a digit or an underscore\<close>
  "name_char c = (letter c \<or> digit c \<or> c = CHR ''_'')"

definition is_identifier :: "string \<Rightarrow> bool" where
  \<comment> \<open>a letter or underscore followed by zero or more letters, digits or underscores\<close>
  "is_identifier w =
     (case w of [] \<Rightarrow> False | c # cs \<Rightarrow> (letter c \<or> c = CHR ''_'') \<and> list_all name_char cs)"

definition decl_form :: "string \<Rightarrow> string \<Rightarrow> bool" where
  \<comment> \<open>the keyword at the start, one or more whitespace characters, then an identifier: the
      name characters that follow the whitespace begin with a letter or an underscore\<close>
  "decl_form keyword s =
     (startswith s keyword \<and>
      (let after = drop (length keyword) s
       in takeWhile isspace after \<noteq> []
          \<and> is_identifier (takeWhile name_char (dropWhile isspace after))))"

definition entity_form :: "string \<Rightarrow> bool" where
  \<comment> \<open>an optional \<^verbatim>\<open>weak \<close> prefix, then \<^verbatim>\<open>entity\<close>, whitespace and an identifier\<close>
  "entity_form s = (decl_form ''entity'' s \<or> decl_form (''weak '' @ ''entity'') s)"

definition relationship_form :: "string \<Rightarrow> bool" where
  "relationship_form s = decl_form ''relationship'' s"

subsection \<open>Cardinalities\<close>

definition card_forms :: "string list" where
  \<comment> \<open>the recognized cardinality tokens\<close>
  "card_forms = [''0..N'', ''1..N'', ''0..1'', ''1..1'', ''N'', ''1'']"

definition holds_form :: "string \<Rightarrow> bool" where
  \<comment> \<open>the text after a \<^verbatim>\<open>[\<close> is a recognized token, closed by \<^verbatim>\<open>]\<close> at once or followed by
      \<^verbatim>\<open>|\<close> (after optional whitespace) and a role designator, which may be any text\<close>
  "holds_form r =
     list_ex (\<lambda>tok. startswith r tok \<and>
                (let e = drop (length tok) r
                 in startswith e '']'' \<or> startswith (dropWhile isspace e) ''|''))
       card_forms"

fun recognized :: "string \<Rightarrow> bool" where
  \<comment> \<open>some bracket of the segment holds a recognized cardinality\<close>
  "recognized [] = False"
| "recognized (c # cs) = ((c = CHR ''['' \<and> holds_form cs) \<or> recognized cs)"

subsection \<open>The relationship block flag\<close>

definition opens_relationship :: "string \<Rightarrow> bool" where
  "opens_relationship line = startswith (strip line) ''relationship ''"

definition closes_block :: "string \<Rightarrow> bool" where
  "closes_block line = endswith (strip line) ''}''"

definition in_relationship :: "string list \<Rightarrow> nat \<Rightarrow> bool" where
  \<comment> \<open>for the line at index \<^verbatim>\<open>i\<close>: some line \<^verbatim>\<open>j \<le> i\<close> opens a relationship and no line
      \<^verbatim>\<open>k\<close> with \<^verbatim>\<open>j \<le> k < i\<close> ends with \<^verbatim>\<open>}\<close>\<close>
  "in_relationship lines i =
     list_ex (\<lambda>j. opens_relationship (lines ! j)
                \<and> list_all (\<lambda>k. \<not> closes_block (lines ! k)) [j..<i])
       [0..<Suc i]"

subsection \<open>A well-formed document\<close>

definition header_ok :: "string list \<Rightarrow> bool" where
  \<comment> \<open>there is a first line and, trimmed, it starts with \<^verbatim>\<open>erdiagram\<close>\<close>
  "header_ok lines =
     (case lines of [] \<Rightarrow> False | first # _ \<Rightarrow> startswith (strip first) ''erdiagram'')"

definition notation_ok :: "string list \<Rightarrow> bool" where
  \<comment> \<open>one of the first 10 lines, trimmed, starts with \<^verbatim>\<open>notation=\<close>\<close>
  "notation_ok lines = list_ex (\<lambda>line. startswith (strip line) ''notation='') (take 10 lines)"

definition declarations_ok :: "string list \<Rightarrow> bool" where
  \<comment> \<open>every line that begins, trimmed, with a declaration keyword and a space has the form
      of that declaration\<close>
  "declarations_ok lines =
     list_all (\<lambda>line.
        (startswith (strip line) ''entity '' \<longrightarrow> decl_form ''entity'' (strip line))
        \<and> (startswith (strip line) ''weak entity '' \<longrightarrow> decl_form ''weak entity'' (strip line))
        \<and> (startswith (strip line) ''relationship '' \<longrightarrow>
             decl_form ''relationship'' (strip line)))
       lines"

definition cardinalities_ok :: "string list \<Rightarrow> bool" where
  \<comment> \<open>on every line with \<^verbatim>\<open>->\<close> inside a relationship block, every segment between
      the arrows that has a \<^verbatim>\<open>[\<close> and a \<^verbatim>\<open>]\<close> holds a recognized cardinality\<close>
  "cardinalities_ok lines =
     list_all (\<lambda>i.
        in_relationship lines i \<and> contains (lines ! i) ''->'' \<longrightarrow>
          list_all (\<lambda>t. CHR ''['' \<in> set t \<and> CHR '']'' \<in> set t \<longrightarrow> recognized t)
            (split (lines ! i) ''->''))
       [0..<length lines]"

definition unquoted :: "string list \<Rightarrow> bool" where
  \<comment> \<open>no line has a double quote\<close>
  "unquoted lines = list_all (\<lambda>line. dquote \<notin> set line) lines"

subsection \<open>Line numbers in issues\<close>

definition numbered_prefixes :: "string list" where
  \<comment> \<open>how the issues that carry more than a line number begin\<close>
  "numbered_prefixes =
     [''Invalid entity declaration on line '', ''Invalid relationship declaration on line '',
      ''Unrecognized cardinality on line '', ''Quoted identifiers or roles found on line '']"

definition cites :: "string \<Rightarrow> nat \<Rightarrow> bool" where
  \<comment> \<open>the issue names line \<^verbatim>\<open>N\<close>: it reads \<^verbatim>\<open>... on line N\<close> to its end, or
      \<^verbatim>\<open>... on line N: \<close> and more\<close>
  "cites x N =
     (x = ''Unmatched closing brace on line '' @ str_nat N
      \<or> list_ex (\<lambda>pre. startswith x (pre @ str_nat N @ '': '')) numbered_prefixes)"

section \<open>Notions for the proofs\<close>

definition nat_of_str :: "string \<Rightarrow> nat" where
  \<comment> \<open>the number that a run of decimal digits writes\<close>
  "nat_of_str ds = foldl (\<lambda>a c. 10 * a + (of_char c - 48)) 0 ds"

text \<open>The language of a pattern.\<close>

definition conc :: "string set \<Rightarrow> string set \<Rightarrow> string set" where
  "conc A B = {u @ v |u v. u \<in> A \<and> v \<in> B}"

inductive_set star :: "string set \<Rightarrow> string set" for A :: "string set" where
  star_nil: "[] \<in> star A"
| star_app: "u \<in> A \<Longrightarrow> v \<in> star A \<Longrightarrow> u @ v \<in> star A"

primrec lang :: "regex \<Rightarrow> string set" where
  "lang Fail = {}"
| "lang Eps = {[]}"
| "lang (Sym P) = {[c] |c. P c}"
| "lang (Then r s) = conc (lang r) (lang s)"
| "lang (Or r s) = lang r \<union> lang s"
| "lang (Rep r) = star (lang r)"

section \<open>Patterns and their languages\<close>

lemma in_conc: "w \<in> conc A B \<longleftrightarrow> (\<exists>u v. w = u @ v \<and> u \<in> A \<and> v \<in> B)"
  by (auto simp: conc_def)

lemma nil_in_conc: "[] \<in> conc A B \<longleftrightarrow> [] \<in> A \<and> [] \<in> B"
  by (auto simp: conc_def)

lemma cons_in_conc:
  "c # w \<in> conc A B \<longleftrightarrow>
     (\<exists>u v. w = u @ v \<and> c # u \<in> A \<and> v \<in> B) \<or> ([] \<in> A \<and> c # w \<in> B)"
  by (auto simp: conc_def Cons_eq_append_conv)

lemma star_cons_split:
  assumes "x \<in> star A" and "x = c # w"
  shows "\<exists>u v. w = u @ v \<and> c # u \<in> A \<and> v \<in> star A"
  using assms
proof (induction arbitrary: rule: star.induct)
  case star_nil
  then show ?case by simp
next
  case (star_app u v)
  show ?case
  proof (cases u)
    case Nil
    with star_app show ?thesis by simp
  next
    case (Cons a u')
    with star_app.prems have "a = c" and "w = u' @ v" by simp_all
    with Cons star_app.hyps show ?thesis by blast
  qed
qed

lemma cons_in_star:
  "c # w \<in> star A \<longleftrightarrow> (\<exists>u v. w = u @ v \<and> c # u \<in> A \<and> v \<in> star A)"
proof
  assume "c # w \<in> star A"
  then show "\<exists>u v. w = u @ v \<and> c # u \<in> A \<and> v \<in> star A"
    by (rule star_cons_split) simp
next
  assume "\<exists>u v. w = u @ v \<and> c # u \<in> A \<and> v \<in> star A"
  then obtain u v where "w = u @ v" "c # u \<in> A" "v \<in> star A" by blast
  then show "c # w \<in> star A"
    using star_app [of "c # u" A v] by simp
qed

lemma nullable_lang: "nullable r \<longleftrightarrow> [] \<in> lang r"
  by (induction r) (auto simp: nil_in_conc intro: star_nil)

lemma deriv_lang: "w \<in> lang (deriv c r) \<longleftrightarrow> c # w \<in> lang r"
proof (induction r arbitrary: w)
  case (Then r s)
  have "w \<in> conc (lang (deriv c r)) (lang s) \<longleftrightarrow>
      (\<exists>u v. w = u @ v \<and> c # u \<in> lang r \<and> v \<in> lang s)"
    by (auto simp: in_conc Then)
  then show ?case
    by (simp add: Then cons_in_conc nullable_lang)
next
  case (Rep r)
  have "w \<in> conc (lang (deriv c r)) (star (lang r)) \<longleftrightarrow>
      (\<exists>u v. w = u @ v \<and> c # u \<in> lang r \<and> v \<in> star (lang r))"
    by (auto simp: in_conc Rep)
  then show ?case
    by (simp add: cons_in_star)
qed auto

lemma re_match_lang: "re_match r s \<longleftrightarrow> (\<exists>p q. s = p @ q \<and> p \<in> lang r)"
proof (induction s arbitrary: r)
  case Nil
  show ?case by (simp add: nullable_lang)
next
  case (Cons c cs)
  show ?case
    by (auto simp: Cons nullable_lang deriv_lang Cons_eq_append_conv)
qed

lemma re_search_here: "re_match r s \<Longrightarrow> re_search r s"
  by (cases s) simp_all

lemma re_search_later: "re_search r s \<Longrightarrow> re_search r (u @ s)"
  by (induction u) simp_all

lemma re_search_inside: "p \<in> lang r \<Longrightarrow> re_search r (u @ p @ q)"
proof (rule re_search_later, rule re_search_here)
  assume "p \<in> lang r"
  then show "re_match r (p @ q)"
    unfolding re_match_lang by blast
qed

lemma lang_lit: "lang (lit s) = {s}"
  by (induction s) (auto simp: conc_def)

lemma star_sym: "star {[c] |c. P c} = {w. list_all P w}"
proof (rule set_eqI, rule iffI)
  fix w
  assume "w \<in> star {[c] |c. P c}"
  then show "w \<in> {w. list_all P w}"
    by (induction rule: star.induct) auto
next
  fix w
  assume "w \<in> {w. list_all P w}"
  then have "list_all P w" by simp
  then show "w \<in> star {[c] |c. P c}"
  proof (induction w)
    case Nil
    show ?case by (rule star_nil)
  next
    case (Cons a w)
    then have "[a] \<in> {[c] |c. P c}" and "w \<in> star {[c] |c. P c}" by auto
    then have "[a] @ w \<in> star {[c] |c. P c}" by (rule star_app)
    then show ?case by simp
  qed
qed

lemma lang_plus_sym: "lang (plus (Sym P)) = {w. w \<noteq> [] \<and> list_all P w}"
proof -
  have "w \<in> conc {[c] |c. P c} {w. list_all P w} \<longleftrightarrow> w \<noteq> [] \<and> list_all P w" for w
  proof (cases w)
    case Nil
    then show ?thesis by (simp add: nil_in_conc)
  next
    case (Cons a w')
    then show ?thesis by (auto simp: cons_in_conc)
  qed
  then show ?thesis
    by (auto simp: plus_def star_sym)
qed

section \<open>The checks one by one\<close>

lemma enumerate_snoc: "enumerate n (xs @ [x]) = enumerate n xs @ [(n + length xs, x)]"
  by (induction xs arbitrary: n) simp_all

lemma check_header_append: "check_header ls issues = issues @ check_header ls []"
  by (simp add: check_header_def split: list.splits)

lemma check_notation_append: "check_notation ls issues = issues @ check_notation ls []"
  by (simp add: check_notation_def)

subsection \<open>Braces\<close>

lemma counter_snoc: "n \<le> length xs \<Longrightarrow> counter (xs @ [x]) n = counter xs n"
  by (induction n) (simp_all add: nth_append)

lemma dips_snoc: "1 \<le> N \<Longrightarrow> N \<le> length xs \<Longrightarrow> dips (xs @ [x]) N = dips xs N"
proof -
  assume "1 \<le> N" and "N \<le> length xs"
  then have "N - 1 < length xs" by arith
  then show ?thesis
    by (simp add: dips_def counter_snoc nth_append)
qed

lemma filter_dips_snoc:
  "filter (dips (xs @ [x])) [1..<Suc (length xs)] = filter (dips xs) [1..<Suc (length xs)]"
  by (rule filter_cong) (auto simp: dips_snoc)

lemma brace_loop:
  "foldl brace_body (issues, 0) (enumerate 1 ls) =
     (issues @ map unmatched_msg (filter (dips ls) [1..<Suc (length ls)]), counter ls (length ls))"
proof (induction ls rule: rev_induct)
  case Nil
  show ?case by simp
next
  case (snoc x xs)
  have up: "[1..<Suc (length (xs @ [x]))] = [1..<Suc (length xs)] @ [Suc (length xs)]"
    by simp
  have d: "dips (xs @ [x]) (Suc (length xs)) \<longleftrightarrow> counter xs (length xs) + delta x < 0"
    by (simp add: dips_def counter_snoc)
  show ?case
    unfolding enumerate_snoc foldl_append snoc up filter_append map_append filter_dips_snoc
    by (simp add: brace_body_def Let_def d counter_snoc delta_def)
qed

lemma check_braces_eq:
  "check_braces ls issues =
     issues @ map unmatched_msg (filter (dips ls) [1..<Suc (length ls)])
       @ (if counter ls (length ls) \<noteq> 0 then [mismatched_msg] else [])"
  unfolding check_braces_def brace_loop by simp

lemma counter_nonneg: "0 \<le> counter ls n"
  by (induction n) simp_all

subsection \<open>Declarations and quotes\<close>

lemma decl_body_append: "decl_body issues il = issues @ decl_body [] il"
  by (cases il) (simp add: decl_body_def Let_def)

lemma decl_loop: "foldl decl_body issues xs = issues @ concat (map (decl_body []) xs)"
proof (induction xs rule: rev_induct)
  case Nil
  show ?case by simp
next
  case (snoc x xs)
  show ?case by (simp add: snoc, subst decl_body_append, simp)
qed

lemma check_decls_eq:
  "check_decls ls issues = issues @ concat (map (decl_body []) (enumerate 1 ls))"
  unfolding check_decls_def decl_loop by simp

lemma quote_body_append: "quote_body issues il = issues @ quote_body [] il"
  by (cases il) (simp add: quote_body_def)

lemma quote_loop: "foldl quote_body issues xs = issues @ concat (map (quote_body []) xs)"
proof (induction xs rule: rev_induct)
  case Nil
  show ?case by simp
next
  case (snoc x xs)
  show ?case by (simp add: snoc, subst quote_body_append, simp)
qed

lemma check_quotes_eq:
  "check_quotes ls issues = issues @ concat (map (quote_body []) (enumerate 1 ls))"
  unfolding check_quotes_def quote_loop by simp

subsection \<open>Cardinalities\<close>

lemma token_body_append: "token_body i line issues t = issues @ token_body i line [] t"
  by (simp add: token_body_def)

lemma token_loop:
  "foldl (token_body i line) issues ts = issues @ concat (map (token_body i line []) ts)"
proof (induction ts rule: rev_induct)
  case Nil
  show ?case by simp
next
  case (snoc t ts)
  show ?case by (simp add: snoc, subst token_body_append, simp)
qed

lemma card_body_eq:
  "card_body (issues, rb) (i, line) =
     (if enter_rel rb line then issues @ arrow_issues i line else issues,
      enter_rel rb line \<and> \<not> closes_block line)"
  by (simp add: card_body_def Let_def arrow_issues_def closes_block_def token_loop)

lemma rel_block_at_snoc: "i < length xs \<Longrightarrow> rel_block_at (xs @ [x]) i = rel_block_at xs i"
  by (simp add: rel_block_at_def nth_append)

lemma applied_snoc:
  "map (applied (xs @ [x])) (enumerate 1 xs) = map (applied xs) (enumerate 1 xs)"
  by (rule map_cong) (auto simp: applied_def in_set_enumerate_eq rel_block_at_snoc)

lemma card_loop:
  "foldl card_body (issues, False) (enumerate 1 ls) =
     (issues @ concat (map (applied ls) (enumerate 1 ls)),
      snd (foldl card_body ([], False) (enumerate 1 ls)))"
proof (induction ls arbitrary: issues rule: rev_induct)
  case Nil
  show ?case by simp
next
  case (snoc x xs)
  have nil: "foldl card_body ([], False) (enumerate 1 xs) =
      (concat (map (applied xs) (enumerate 1 xs)),
       snd (foldl card_body ([], False) (enumerate 1 xs)))"
    by (cases "foldl card_body ([], False) (enumerate 1 xs)")
      (metis snoc [of "[]"] append_Nil prod.sel)
  have here: "rel_block_at (xs @ [x]) (length xs) =
      enter_rel (snd (foldl card_body ([], False) (enumerate 1 xs))) x"
    by (simp add: rel_block_at_def)
  show ?case
    unfolding enumerate_snoc foldl_append map_append concat_append applied_snoc
    by (subst snoc, subst nil, simp add: card_body_eq applied_def here)
qed

lemma check_cardinality_eq:
  "check_cardinality ls issues = issues @ concat (map (applied ls) (enumerate 1 ls))"
  unfolding check_cardinality_def by (subst card_loop) simp

subsection \<open>All of them\<close>

lemma check_lines_eq:
  "check_lines ls =
     check_header ls [] @ check_notation ls [] @ check_braces ls [] @ check_decls ls []
       @ check_cardinality ls [] @ check_quotes ls []"
  unfolding check_lines_def
  by (subst check_quotes_eq, subst check_cardinality_eq, subst check_decls_eq,
      subst check_braces_eq, subst check_notation_append)
    (simp add: check_quotes_eq check_cardinality_eq check_decls_eq check_braces_eq)

section \<open>The text of the issues\<close>

lemma startswith_iff: "startswith x p \<longleftrightarrow> (\<exists>r. x = p @ r)"
proof
  assume "startswith x p"
  then have "x = p @ drop (length p) x"
    unfolding startswith_def by (metis append_take_drop_id)
  then show "\<exists>r. x = p @ r" ..
next
  assume "\<exists>r. x = p @ r"
  then show "startswith x p"
    by (auto simp: startswith_def)
qed

lemma digit_char: "(d::nat) < 10 \<Longrightarrow> digit (char_of (48 + d))"
proof -
  assume "d < 10"
  then have "d \<in> set [0..<10]" by simp
  moreover have "list_all (\<lambda>d::nat. digit (char_of (48 + d))) [0..<10]"
    by code_simp
  ultimately show ?thesis
    unfolding list_all_iff by blast
qed

lemma str_nat_digits: "list_all digit (str_nat n)"
proof (induction n rule: str_nat.induct)
  case (1 n)
  show ?case
  proof (cases "n < 10")
    case True
    then show ?thesis
      by (subst str_nat.simps) (simp add: digit_char)
  next
    case False
    then show ?thesis
      using 1 by (subst str_nat.simps) (simp add: digit_char)
  qed
qed

lemma nat_of_str_snoc: "nat_of_str (ds @ [c]) = 10 * nat_of_str ds + (of_char c - 48)"
  by (simp add: nat_of_str_def)

lemma of_char_digit: "(d::nat) < 10 \<Longrightarrow> (of_char (char_of (48 + d)) :: nat) = 48 + d"
  by simp

lemma nat_of_str_nat: "nat_of_str (str_nat n) = n"
proof (induction n rule: str_nat.induct)
  case (1 n)
  show ?case
  proof (cases "n < 10")
    case True
    then show ?thesis
      by (subst str_nat.simps) (simp add: nat_of_str_def)
  next
    case False
    have "nat_of_str (str_nat (n div 10) @ [char_of (48 + n mod 10)]) = 10 * (n div 10) + n mod 10"
      unfolding nat_of_str_snoc using 1 False by (simp add: of_char_digit)
    then show ?thesis
      using False by (subst str_nat.simps) simp
  qed
qed

lemma str_nat_inj: "str_nat m = str_nat n \<Longrightarrow> m = n"
  by (metis nat_of_str_nat)

lemma digits_then_other:
  assumes "list_all digit a" and "list_all digit b" and "a @ x = b @ y"
    and "x = [] \<or> \<not> digit (hd x)" and "y = [] \<or> \<not> digit (hd y)"
  shows "a = b"
  using assms
proof (induction a arbitrary: b)
  case Nil
  then show ?case by (cases b) auto
next
  case (Cons c a)
  show ?case
  proof (cases b)
    case Nil
    with Cons.prems show ?thesis by auto
  next
    case (Cons d b')
    with Cons.prems have "c = d" and "a @ x = b' @ y" and "list_all digit b'" and "list_all digit a"
      by simp_all
    with Cons.IH [of b'] Cons.prems(4,5) Cons show ?thesis by simp
  qed
qed

lemma number_then_colon:
  "str_nat m @ CHR '':'' # x = str_nat n @ CHR '':'' # y \<Longrightarrow> m = n"
proof -
  assume "str_nat m @ CHR '':'' # x = str_nat n @ CHR '':'' # y"
  then have "str_nat m = str_nat n"
    by (rule digits_then_other [OF str_nat_digits str_nat_digits]) (simp_all add: digit_def)
  then show ?thesis by (rule str_nat_inj)
qed

section \<open>Which issues a document gets\<close>

lemma in_check_header:
  "x \<in> set (check_header ls []) \<longleftrightarrow>
     x = header_msg \<and> (ls = [] \<or> \<not> startswith (strip (hd ls)) ''erdiagram'')"
  by (auto simp: check_header_def split: list.splits)

lemma in_check_notation:
  "x \<in> set (check_notation ls []) \<longleftrightarrow>
     x = notation_msg \<and> \<not> list_ex (\<lambda>line. startswith (strip line) ''notation='') (take 10 ls)"
  by (auto simp: check_notation_def)

lemma in_check_braces:
  "x \<in> set (check_braces ls []) \<longleftrightarrow>
     (\<exists>N. 1 \<le> N \<and> N \<le> length ls \<and> dips ls N \<and> x = unmatched_msg N)
     \<or> (x = mismatched_msg \<and> counter ls (length ls) \<noteq> 0)"
  unfolding check_braces_eq by auto

lemma in_concat_enumerate:
  "x \<in> set (concat (map f (enumerate 1 ls))) \<longleftrightarrow>
     (\<exists>N. 1 \<le> N \<and> N \<le> length ls \<and> x \<in> set (f (N, ls ! (N - 1))))"
proof
  assume "x \<in> set (concat (map f (enumerate 1 ls)))"
  then obtain N l where p: "(N, l) \<in> set (enumerate 1 ls)" and x: "x \<in> set (f (N, l))"
    by auto
  from p have "1 \<le> N" and "N \<le> length ls" and "l = ls ! (N - 1)"
    by (auto simp: in_set_enumerate_eq)
  with x show "\<exists>N. 1 \<le> N \<and> N \<le> length ls \<and> x \<in> set (f (N, ls ! (N - 1)))"
    by blast
next
  assume "\<exists>N. 1 \<le> N \<and> N \<le> length ls \<and> x \<in> set (f (N, ls ! (N - 1)))"
  then obtain N where n: "1 \<le> N" "N \<le> length ls" and x: "x \<in> set (f (N, ls ! (N - 1)))"
    by blast
  from n have "(N, ls ! (N - 1)) \<in> set (enumerate 1 ls)"
    by (auto simp: in_set_enumerate_eq)
  with x show "x \<in> set (concat (map f (enumerate 1 ls)))"
    by force
qed

lemma in_check_decls:
  "x \<in> set (check_decls ls []) \<longleftrightarrow>
     (\<exists>N. 1 \<le> N \<and> N \<le> length ls \<and> x \<in> set (decl_body [] (N, ls ! (N - 1))))"
  by (simp only: check_decls_eq append_Nil in_concat_enumerate)

lemma in_decl_body:
  "x \<in> set (decl_body [] (N, line)) \<longleftrightarrow>
     (x = entity_msg N (strip line)
        \<and> (startswith (strip line) ''entity '' \<or> startswith (strip line) ''weak entity '')
        \<and> \<not> (re_match ENTITY_DECL (strip line) \<or> re_match WEAK_ENTITY_DECL (strip line)))
     \<or> (x = relationship_msg N (strip line) \<and> startswith (strip line) ''relationship ''
        \<and> \<not> re_match REL_DECL (strip line))"
  by (auto simp: decl_body_def Let_def)

lemma in_applied:
  "x \<in> set (applied ls (N, l)) \<longleftrightarrow> rel_block_at ls (N - 1) \<and> x \<in> set (arrow_issues N l)"
  by (simp add: applied_def)

lemma in_check_cardinality:
  "x \<in> set (check_cardinality ls []) \<longleftrightarrow>
     (\<exists>N. 1 \<le> N \<and> N \<le> length ls \<and> rel_block_at ls (N - 1)
        \<and> x \<in> set (arrow_issues N (ls ! (N - 1))))"
  by (simp only: check_cardinality_eq append_Nil in_concat_enumerate in_applied)

lemma in_token_body:
  "x \<in> set (token_body N line [] t) \<longleftrightarrow>
     x = cardinality_msg N (strip line) \<and> CHR ''['' \<in> set t \<and> CHR '']'' \<in> set t
     \<and> \<not> re_search card_re t \<and> \<not> (CHR ''|'' \<in> set t \<and> re_search card_role_re t)"
  by (auto simp: token_body_def)

lemma in_arrow_issues:
  "x \<in> set (arrow_issues N line) \<longleftrightarrow>
     x = cardinality_msg N (strip line) \<and> contains line ''->''
     \<and> (\<exists>t \<in> set (split line ''->''). CHR ''['' \<in> set t \<and> CHR '']'' \<in> set t
          \<and> \<not> re_search card_re t \<and> \<not> (CHR ''|'' \<in> set t \<and> re_search card_role_re t))"
  by (auto simp: arrow_issues_def token_loop in_token_body)

lemma in_quote_body:
  "x \<in> set (quote_body [] (N, l)) \<longleftrightarrow> dquote \<in> set l \<and> x = quoted_msg N"
  by (auto simp: quote_body_def)

lemma in_check_quotes:
  "x \<in> set (check_quotes ls []) \<longleftrightarrow>
     (\<exists>N. 1 \<le> N \<and> N \<le> length ls \<and> dquote \<in> set (ls ! (N - 1)) \<and> x = quoted_msg N)"
  by (simp only: check_quotes_eq append_Nil in_concat_enumerate in_quote_body)

lemma in_check_lines:
  "x \<in> set (check_lines ls) \<longleftrightarrow>
     x \<in> set (check_header ls []) \<or> x \<in> set (check_notation ls [])
     \<or> x \<in> set (check_braces ls []) \<or> x \<in> set (check_decls ls [])
     \<or> x \<in> set (check_cardinality ls []) \<or> x \<in> set (check_quotes ls [])"
  unfolding check_lines_eq by auto

subsection \<open>The issues are told apart by how they begin\<close>

lemma begins:
  "take 9 header_msg = ''Missing o''"
  "take 9 notation_msg = ''Missing n''"
  "take 9 mismatched_msg = ''Mismatche''"
  "take 9 (unmatched_msg N) = ''Unmatched''"
  "take 9 (entity_msg N s) = ''Invalid e''"
  "take 9 (relationship_msg N s) = ''Invalid r''"
  "take 9 (cardinality_msg N s) = ''Unrecogni''"
  "take 9 (quoted_msg N) = ''Quoted id''"
  by (simp_all add: header_msg_def notation_msg_def mismatched_msg_def unmatched_msg_def
      entity_msg_def relationship_msg_def cardinality_msg_def quoted_msg_def)

lemma begins_check_braces:
  "x \<in> set (check_braces ls []) \<Longrightarrow> take 9 x \<in> {''Mismatche'', ''Unmatched''}"
  by (auto simp: in_check_braces begins)

lemma begins_check_decls:
  "x \<in> set (check_decls ls []) \<Longrightarrow> take 9 x \<in> {''Invalid e'', ''Invalid r''}"
  by (auto simp: in_check_decls in_decl_body begins)

lemma begins_check_cardinality:
  "x \<in> set (check_cardinality ls []) \<Longrightarrow> take 9 x = ''Unrecogni''"
  by (auto simp: in_check_cardinality in_arrow_issues begins)

lemma begins_check_quotes:
  "x \<in> set (check_quotes ls []) \<Longrightarrow> take 9 x = ''Quoted id''"
  by (auto simp: in_check_quotes begins)

lemma header_not_notation: "header_msg \<noteq> notation_msg"
proof
  assume "header_msg = notation_msg"
  then have "take 9 header_msg = take 9 notation_msg" by simp
  then show False by (simp add: begins)
qed

lemma header_msg_in:
  "header_msg \<in> set (check_lines ls) \<longleftrightarrow> header_msg \<in> set (check_header ls [])"
  using begins_check_braces [of header_msg ls] begins_check_decls [of header_msg ls]
    begins_check_cardinality [of header_msg ls] begins_check_quotes [of header_msg ls]
    header_not_notation
  by (auto simp: in_check_lines in_check_notation begins)

lemma notation_msg_in:
  "notation_msg \<in> set (check_lines ls) \<longleftrightarrow> notation_msg \<in> set (check_notation ls [])"
  using begins_check_braces [of notation_msg ls] begins_check_decls [of notation_msg ls]
    begins_check_cardinality [of notation_msg ls] begins_check_quotes [of notation_msg ls]
    header_not_notation
  by (auto simp: in_check_lines in_check_header begins)

subsection \<open>The line an issue names\<close>

lemma cites_unmatched: "cites (unmatched_msg M) N \<longleftrightarrow> M = N"
  by (auto simp: cites_def numbered_prefixes_def unmatched_msg_def startswith_iff
      dest: str_nat_inj)

lemma cites_entity: "cites (entity_msg M s) N \<longleftrightarrow> M = N"
  by (auto simp: cites_def numbered_prefixes_def entity_msg_def startswith_iff
      dest: number_then_colon)

lemma cites_relationship: "cites (relationship_msg M s) N \<longleftrightarrow> M = N"
  by (auto simp: cites_def numbered_prefixes_def relationship_msg_def startswith_iff
      dest: number_then_colon)

lemma cites_cardinality: "cites (cardinality_msg M s) N \<longleftrightarrow> M = N"
  by (auto simp: cites_def numbered_prefixes_def cardinality_msg_def startswith_iff
      dest: number_then_colon)

lemma cites_quoted: "cites (quoted_msg M) N \<longleftrightarrow> M = N"
  by (auto simp: cites_def numbered_prefixes_def quoted_msg_def startswith_iff
      dest: number_then_colon)

lemma cites_none:
  "\<not> cites header_msg N" "\<not> cites notation_msg N" "\<not> cites mismatched_msg N"
  by (auto simp: cites_def numbered_prefixes_def header_msg_def notation_msg_def
      mismatched_msg_def startswith_iff)

lemma unmatched_msg_inj: "unmatched_msg M = unmatched_msg N \<longleftrightarrow> M = N"
  using cites_unmatched [of M N] cites_unmatched [of N N] by auto

lemma entity_msg_inj: "entity_msg M s = entity_msg N t \<longleftrightarrow> M = N \<and> s = t"
proof
  assume e: "entity_msg M s = entity_msg N t"
  have "cites (entity_msg N t) N"
    by (simp add: cites_entity)
  with e have "cites (entity_msg M s) N"
    by simp
  then have "M = N"
    by (simp add: cites_entity)
  with e show "M = N \<and> s = t"
    by (simp add: entity_msg_def)
next
  assume "M = N \<and> s = t"
  then show "entity_msg M s = entity_msg N t"
    by simp
qed

lemma relationship_msg_inj: "relationship_msg M s = relationship_msg N t \<longleftrightarrow> M = N \<and> s = t"
proof
  assume e: "relationship_msg M s = relationship_msg N t"
  have "cites (relationship_msg N t) N"
    by (simp add: cites_relationship)
  with e have "cites (relationship_msg M s) N"
    by simp
  then have "M = N"
    by (simp add: cites_relationship)
  with e show "M = N \<and> s = t"
    by (simp add: relationship_msg_def)
next
  assume "M = N \<and> s = t"
  then show "relationship_msg M s = relationship_msg N t"
    by simp
qed

lemma cardinality_msg_inj: "cardinality_msg M s = cardinality_msg N t \<longleftrightarrow> M = N \<and> s = t"
proof
  assume e: "cardinality_msg M s = cardinality_msg N t"
  have "cites (cardinality_msg N t) N"
    by (simp add: cites_cardinality)
  with e have "cites (cardinality_msg M s) N"
    by simp
  then have "M = N"
    by (simp add: cites_cardinality)
  with e show "M = N \<and> s = t"
    by (simp add: cardinality_msg_def)
next
  assume "M = N \<and> s = t"
  then show "cardinality_msg M s = cardinality_msg N t"
    by simp
qed

lemma quoted_msg_inj: "quoted_msg M = quoted_msg N \<longleftrightarrow> M = N"
  using cites_quoted [of M N] cites_quoted [of N N] by auto

subsection \<open>From the whole list back to the check\<close>

lemma begins_check_header: "x \<in> set (check_header ls []) \<Longrightarrow> take 9 x = ''Missing o''"
  by (simp add: in_check_header begins)

lemma begins_check_notation: "x \<in> set (check_notation ls []) \<Longrightarrow> take 9 x = ''Missing n''"
  by (simp add: in_check_notation begins)

lemma part_of:
  assumes "x \<in> set (check_lines ls)"
  shows "take 9 x = ''Missing o'' \<Longrightarrow> x \<in> set (check_header ls [])"
    and "take 9 x = ''Missing n'' \<Longrightarrow> x \<in> set (check_notation ls [])"
    and "take 9 x = ''Mismatche'' \<or> take 9 x = ''Unmatched'' \<Longrightarrow> x \<in> set (check_braces ls [])"
    and "take 9 x = ''Invalid e'' \<or> take 9 x = ''Invalid r'' \<Longrightarrow> x \<in> set (check_decls ls [])"
    and "take 9 x = ''Unrecogni'' \<Longrightarrow> x \<in> set (check_cardinality ls [])"
    and "take 9 x = ''Quoted id'' \<Longrightarrow> x \<in> set (check_quotes ls [])"
  using assms begins_check_header [of x ls] begins_check_notation [of x ls]
    begins_check_braces [of x ls] begins_check_decls [of x ls]
    begins_check_cardinality [of x ls] begins_check_quotes [of x ls]
  by (auto simp: in_check_lines)

lemma unmatched_in_lines:
  "unmatched_msg N \<in> set (check_lines ls) \<longleftrightarrow> 1 \<le> N \<and> N \<le> length ls \<and> dips ls N"
proof -
  have "unmatched_msg N \<in> set (check_lines ls) \<longleftrightarrow> unmatched_msg N \<in> set (check_braces ls [])"
    using part_of(3) [of "unmatched_msg N" ls] by (auto simp: in_check_lines begins)
  also have "\<dots> \<longleftrightarrow> 1 \<le> N \<and> N \<le> length ls \<and> dips ls N"
  proof -
    have "unmatched_msg N \<noteq> mismatched_msg"
    proof
      assume "unmatched_msg N = mismatched_msg"
      then have "take 9 (unmatched_msg N) = take 9 mismatched_msg" by simp
      then show False by (simp add: begins)
    qed
    then show ?thesis
      by (auto simp: in_check_braces unmatched_msg_inj)
  qed
  finally show ?thesis .
qed

lemma count_part:
  shows count_header:
    "take 9 x = ''Missing o'' \<Longrightarrow> count_list (check_lines ls) x = count_list (check_header ls []) x"
  and count_notation:
    "take 9 x = ''Missing n'' \<Longrightarrow> count_list (check_lines ls) x = count_list (check_notation ls []) x"
  and count_braces:
    "take 9 x = ''Mismatche'' \<Longrightarrow> count_list (check_lines ls) x = count_list (check_braces ls []) x"
proof -
  show "count_list (check_lines ls) x = count_list (check_header ls []) x"
    if t: "take 9 x = ''Missing o''"
  proof -
    have "x \<notin> set (check_notation ls [])" "x \<notin> set (check_braces ls [])"
      "x \<notin> set (check_decls ls [])" "x \<notin> set (check_cardinality ls [])"
      "x \<notin> set (check_quotes ls [])"
      using t begins_check_notation [of x ls] begins_check_braces [of x ls]
        begins_check_decls [of x ls] begins_check_cardinality [of x ls]
        begins_check_quotes [of x ls]
      by auto
    then show ?thesis
      by (simp add: check_lines_eq count_notin)
  qed
  show "count_list (check_lines ls) x = count_list (check_notation ls []) x"
    if t: "take 9 x = ''Missing n''"
  proof -
    have "x \<notin> set (check_header ls [])" "x \<notin> set (check_braces ls [])"
      "x \<notin> set (check_decls ls [])" "x \<notin> set (check_cardinality ls [])"
      "x \<notin> set (check_quotes ls [])"
      using t begins_check_header [of x ls] begins_check_braces [of x ls]
        begins_check_decls [of x ls] begins_check_cardinality [of x ls]
        begins_check_quotes [of x ls]
      by auto
    then show ?thesis
      by (simp add: check_lines_eq count_notin)
  qed
  show "count_list (check_lines ls) x = count_list (check_braces ls []) x"
    if t: "take 9 x = ''Mismatche''"
  proof -
    have "x \<notin> set (check_header ls [])" "x \<notin> set (check_notation ls [])"
      "x \<notin> set (check_decls ls [])" "x \<notin> set (check_cardinality ls [])"
      "x \<notin> set (check_quotes ls [])"
      using t begins_check_header [of x ls] begins_check_notation [of x ls]
        begins_check_decls [of x ls] begins_check_cardinality [of x ls]
        begins_check_quotes [of x ls]
      by auto
    then show ?thesis
      by (simp add: check_lines_eq count_notin)
  qed
qed

lemma count_mismatched_braces:
  "count_list (check_braces ls []) mismatched_msg = (if counter ls (length ls) \<noteq> 0 then 1 else 0)"
proof -
  have "mismatched_msg \<noteq> unmatched_msg N" for N
  proof
    assume "mismatched_msg = unmatched_msg N"
    then have "take 9 mismatched_msg = take 9 (unmatched_msg N)" by simp
    then show False by (simp add: begins)
  qed
  then have "mismatched_msg \<notin> set (map unmatched_msg (filter (dips ls) [1..<Suc (length ls)]))"
    by auto
  then show ?thesis
    unfolding check_braces_eq by (simp add: count_notin)
qed

section \<open>Braces, header and notation\<close>

text \<open>
  C3. The brace check keeps a counter that starts at 0 and, line by line, adds the
  \<^verbatim>\<open>{\<close> and subtracts the \<^verbatim>\<open>}\<close> of the line; each line \<^verbatim>\<open>N\<close> after which the counter is
  negative gets the issue \<^verbatim>\<open>Unmatched closing brace on line N\<close> and the counter goes back
  to 0, so a later stray \<^verbatim>\<open>}\<close> is reported on its own; at the end the issue
  \<^verbatim>\<open>Mismatched braces\<close> is emitted once exactly when the counter is not 0.
\<close>

theorem brace_check:
  "check_braces ls issues =
     issues @ map unmatched_msg (filter (dips ls) [1..<Suc (length ls)])
       @ (if counter ls (length ls) \<noteq> 0 then [mismatched_msg] else [])
   \<and> (unmatched_msg N \<in> set (check_lines ls) \<longleftrightarrow> 1 \<le> N \<and> N \<le> length ls \<and> dips ls N)
   \<and> count_list (check_lines ls) mismatched_msg = (if counter ls (length ls) \<noteq> 0 then 1 else 0)
   \<and> counter ls 0 = 0 \<and> 0 \<le> counter ls n
   \<and> counter ls (Suc n) = (if dips ls (Suc n) then 0 else counter ls n + delta (ls ! n))"
  using check_braces_eq [of ls issues] unmatched_in_lines [of N ls]
    count_braces [of mismatched_msg ls] count_mismatched_braces [of ls] counter_nonneg [of ls n]
  by (simp add: begins dips_def)

theorem brace_check_witness:
  "check_braces [''}'', ''{ }'', ''} }'', ''{ {''] [] =
     [unmatched_msg 1, unmatched_msg 3, mismatched_msg]
   \<and> unmatched_msg 3 \<in> set (check_lines [''}'', ''{ }'', ''} }'', ''{ {''])
   \<and> unmatched_msg 2 \<notin> set (check_lines [''}'', ''{ }'', ''} }'', ''{ {''])
   \<and> count_list (check_lines [''}'', ''{ }'', ''} }'', ''{ {'']) mismatched_msg = 1
   \<and> counter [''}'', ''{ }'', ''} }'', ''{ {''] 3 = 0"
proof -
  have d: "filter (dips [''}'', ''{ }'', ''} }'', ''{ {'']) [1..<Suc (length [''}'', ''{ }'', ''} }'', ''{ {''])]
      = [1, 3]"
    by code_simp
  have c: "counter [''}'', ''{ }'', ''} }'', ''{ {''] (length [''}'', ''{ }'', ''} }'', ''{ {'']) = 2"
    by code_simp
  have d2: "\<not> dips [''}'', ''{ }'', ''} }'', ''{ {''] 2" and d3: "dips [''}'', ''{ }'', ''} }'', ''{ {''] 3"
    by code_simp+
  have n: "Suc 2 = 3"
    by simp
  show ?thesis
    using brace_check [of "[''}'', ''{ }'', ''} }'', ''{ {'']" "[]" 3 2]
      brace_check [of "[''}'', ''{ }'', ''} }'', ''{ {'']" "[]" 2 2]
    unfolding d c n by (simp add: d2 d3)
qed

text \<open>
  C5. The header check emits the header issue once exactly when the document has no line
  or its first line, trimmed, does not start with \<^verbatim>\<open>erdiagram\<close>; whatever follows
  \<^verbatim>\<open>erdiagram\<close> on that line, there is no header issue.
\<close>

theorem header_issue:
  "count_list (check_lines ls) header_msg =
     (if ls = [] \<or> \<not> startswith (strip (hd ls)) ''erdiagram'' then 1 else 0)"
  using count_header [of header_msg ls]
  by (cases ls) (simp_all add: begins check_header_def)

theorem header_issue_witness:
  "count_list (check_lines []) header_msg = 1
   \<and> count_list (check_lines [''  erdiagram Shop '', ''notation=uml'']) header_msg = 0
   \<and> count_list (check_lines [''notation=crowsfoot'', ''erdiagram Shop'']) header_msg = 1"
proof -
  have a: "startswith (strip (hd [''  erdiagram Shop '', ''notation=uml''])) ''erdiagram''"
    by code_simp
  have b: "\<not> startswith (strip (hd [''notation=crowsfoot'', ''erdiagram Shop''])) ''erdiagram''"
    by code_simp
  show ?thesis
    using header_issue [of "[]"] header_issue [of "[''  erdiagram Shop '', ''notation=uml'']"]
      header_issue [of "[''notation=crowsfoot'', ''erdiagram Shop'']"] a b
    by simp
qed

text \<open>
  C10. The notation check looks only at the prefix \<^verbatim>\<open>notation=\<close> of the trimmed lines:
  the notation issue is there exactly when none of the first 10 lines has it. A line that
  is just \<^verbatim>\<open>notation=\<close> is enough, although it does not match \<^verbatim>\<open>NOTATION_DECL\<close>, the
  pattern that asks for a name and is never applied.
\<close>

theorem notation_prefix_only:
  "(notation_msg \<in> set (check_lines ls) \<longleftrightarrow>
      \<not> list_ex (\<lambda>line. startswith (strip line) ''notation='') (take 10 ls))
   \<and> \<not> re_match NOTATION_DECL ''notation=''"
proof
  show "notation_msg \<in> set (check_lines ls) \<longleftrightarrow>
      \<not> list_ex (\<lambda>line. startswith (strip line) ''notation='') (take 10 ls)"
    by (simp add: notation_msg_in in_check_notation)
  show "\<not> re_match NOTATION_DECL ''notation=''"
    by code_simp
qed

theorem notation_prefix_only_witness:
  "notation_msg \<notin> set (check_lines [''erdiagram Shop'', '' notation='', ''entity A {'', ''}''])
   \<and> notation_msg \<in> set (check_lines [''erdiagram Shop'', ''notation = crowsfoot''])"
proof -
  have a: "list_ex (\<lambda>line. startswith (strip line) ''notation='')
      (take 10 [''erdiagram Shop'', '' notation='', ''entity A {'', ''}''])"
    by code_simp
  have b: "\<not> list_ex (\<lambda>line. startswith (strip line) ''notation='')
      (take 10 [''erdiagram Shop'', ''notation = crowsfoot''])"
    by code_simp
  show ?thesis
    using notation_prefix_only [of "[''erdiagram Shop'', '' notation='', ''entity A {'', ''}'']"]
      notation_prefix_only [of "[''erdiagram Shop'', ''notation = crowsfoot'']"] a b
    by simp
qed

section \<open>The relationship block flag\<close>

lemma enter_rel_eq: "enter_rel rb line = (opens_relationship line \<or> rb)"
  by (simp add: enter_rel_def opens_relationship_def)

lemma rel_block_at_0: "rel_block_at ls 0 = opens_relationship (ls ! 0)"
  by (simp add: rel_block_at_def enter_rel_eq)

lemma flag_after:
  assumes "i < length ls"
  shows "snd (foldl card_body ([], False) (enumerate 1 (take (Suc i) ls))) =
    (rel_block_at ls i \<and> \<not> closes_block (ls ! i))"
proof -
  obtain a b where st: "foldl card_body ([], False) (enumerate 1 (take i ls)) = (a, b)"
    by (cases "foldl card_body ([], False) (enumerate 1 (take i ls))")
  have "take (Suc i) ls = take i ls @ [ls ! i]"
    using assms by (rule take_Suc_conv_app_nth)
  then have e: "foldl card_body ([], False) (enumerate 1 (take (Suc i) ls)) =
      card_body (a, b) (1 + length (take i ls), ls ! i)"
    by (simp only: enumerate_snoc foldl_append st foldl.simps)
  show ?thesis
    unfolding e rel_block_at_def st card_body_eq by simp
qed

lemma rel_block_at_Suc:
  "Suc i < length ls \<Longrightarrow>
   rel_block_at ls (Suc i) =
     (opens_relationship (ls ! Suc i) \<or> (rel_block_at ls i \<and> \<not> closes_block (ls ! i)))"
  using flag_after [of i ls] by (simp add: rel_block_at_def [of ls "Suc i"] enter_rel_eq)

lemma in_relationship_iff:
  "in_relationship ls i \<longleftrightarrow>
     (\<exists>j. j \<le> i \<and> opens_relationship (ls ! j) \<and> (\<forall>k. j \<le> k \<and> k < i \<longrightarrow> \<not> closes_block (ls ! k)))"
  unfolding in_relationship_def list_ex_iff list_all_iff
  by (simp add: Bex_def Ball_def) (auto simp: le_less)

lemma in_relationship_0: "in_relationship ls 0 = opens_relationship (ls ! 0)"
  by (simp add: in_relationship_iff)

lemma in_relationship_Suc:
  "in_relationship ls (Suc i) =
     (opens_relationship (ls ! Suc i) \<or> (in_relationship ls i \<and> \<not> closes_block (ls ! i)))"
proof
  assume "in_relationship ls (Suc i)"
  then obtain j where j: "j \<le> Suc i" "opens_relationship (ls ! j)"
      and k: "\<And>k. j \<le> k \<Longrightarrow> k < Suc i \<Longrightarrow> \<not> closes_block (ls ! k)"
    unfolding in_relationship_iff by blast
  show "opens_relationship (ls ! Suc i) \<or> (in_relationship ls i \<and> \<not> closes_block (ls ! i))"
  proof (cases "j = Suc i")
    case True
    with j show ?thesis by simp
  next
    case False
    with j have le: "j \<le> i" by simp
    then have "\<not> closes_block (ls ! i)"
      using k [of i] by simp
    moreover have "in_relationship ls i"
      unfolding in_relationship_iff using le j(2) k by (meson less_Suc_eq)
    ultimately show ?thesis by simp
  qed
next
  assume "opens_relationship (ls ! Suc i) \<or> (in_relationship ls i \<and> \<not> closes_block (ls ! i))"
  then show "in_relationship ls (Suc i)"
  proof
    assume "opens_relationship (ls ! Suc i)"
    then have "Suc i \<le> Suc i \<and> opens_relationship (ls ! Suc i)
        \<and> (\<forall>k. Suc i \<le> k \<and> k < Suc i \<longrightarrow> \<not> closes_block (ls ! k))"
      by auto
    then show ?thesis
      unfolding in_relationship_iff by blast
  next
    assume a: "in_relationship ls i \<and> \<not> closes_block (ls ! i)"
    then obtain j where j: "j \<le> i" "opens_relationship (ls ! j)"
        and k: "\<And>k. j \<le> k \<Longrightarrow> k < i \<Longrightarrow> \<not> closes_block (ls ! k)"
      unfolding in_relationship_iff by blast
    have "\<not> closes_block (ls ! k)" if "j \<le> k" "k < Suc i" for k
      using that k [of k] a by (cases "k = i") simp_all
    with j have "j \<le> Suc i \<and> opens_relationship (ls ! j)
        \<and> (\<forall>k. j \<le> k \<and> k < Suc i \<longrightarrow> \<not> closes_block (ls ! k))"
      by simp
    then show ?thesis
      unfolding in_relationship_iff by blast
  qed
qed

lemma rel_block_at_eq: "i < length ls \<Longrightarrow> rel_block_at ls i = in_relationship ls i"
proof (induction i)
  case 0
  show ?case by (simp add: rel_block_at_0 in_relationship_0)
next
  case (Suc i)
  then show ?case
    by (simp add: rel_block_at_Suc in_relationship_Suc)
qed

text \<open>
  C7. The flag starts false; a line that opens a relationship sets it before the
  cardinality test of that line; a line processed with the flag set clears it after the
  test when its trimmed text ends with \<^verbatim>\<open>}\<close>, whatever the brace depth. So the test
  applies to a line exactly when an earlier or the same line opens a relationship and no
  line from there up to the one before ends with \<^verbatim>\<open>}\<close>; a nested \<^verbatim>\<open>}\<close> in a
  relationship body ends the block early.
\<close>

theorem relationship_flag:
  "snd (foldl card_body (issues, False) (enumerate 1 [])) = False
   \<and> card_body (issues, rb) (N, line) =
       (if opens_relationship line \<or> rb then issues @ arrow_issues N line else issues,
        (opens_relationship line \<or> rb) \<and> \<not> closes_block line)
   \<and> (i < length ls \<longrightarrow> rel_block_at ls i = in_relationship ls i)
   \<and> check_cardinality ls issues = issues @ concat (map (applied ls) (enumerate 1 ls))"
  using rel_block_at_eq [of i ls] check_cardinality_eq [of ls issues]
  by (simp add: card_body_eq enter_rel_eq)

theorem relationship_flag_witness:
  "rel_block_at [''relationship Owns {'', ''  attrs { since }'', ''  A -> B [maybe]'', ''}''] 1
   \<and> \<not> rel_block_at [''relationship Owns {'', ''  attrs { since }'', ''  A -> B [maybe]'', ''}''] 2
   \<and> check_cardinality
        [''relationship Owns {'', ''  attrs { since }'', ''  A -> B [maybe]'', ''}''] [] = []
   \<and> check_cardinality [''relationship Owns {'', ''  A -> B [maybe]'', ''}''] [] =
        [cardinality_msg 2 ''A -> B [maybe]'']"
proof -
  let ?nested = "[''relationship Owns {'', ''  attrs { since }'', ''  A -> B [maybe]'', ''}'']"
  let ?flat = "[''relationship Owns {'', ''  A -> B [maybe]'', ''}'']"
  have i: "in_relationship ?nested 0" "in_relationship ?nested (Suc 0)"
    "\<not> in_relationship ?nested (Suc (Suc 0))" "\<not> in_relationship ?nested (Suc (Suc (Suc 0)))"
    by code_simp+
  have f: "in_relationship ?flat 0" "in_relationship ?flat (Suc 0)"
    "in_relationship ?flat (Suc (Suc 0))"
    by code_simp+
  have a: "arrow_issues (Suc 0) ''relationship Owns {'' = []"
    "arrow_issues (Suc (Suc 0)) ''  attrs { since }'' = []"
    "arrow_issues (Suc (Suc (Suc 0))) ''}'' = []"
    "arrow_issues (Suc (Suc 0)) ''  A -> B [maybe]'' = [cardinality_msg 2 ''A -> B [maybe]'']"
    by code_simp+
  have r: "rel_block_at ?nested 0" "rel_block_at ?nested (Suc 0)"
    "\<not> rel_block_at ?nested (Suc (Suc 0))" "\<not> rel_block_at ?nested (Suc (Suc (Suc 0)))"
    using relationship_flag [of "[]" False 0 "[]" 0 ?nested]
      relationship_flag [of "[]" False 0 "[]" "Suc 0" ?nested]
      relationship_flag [of "[]" False 0 "[]" "Suc (Suc 0)" ?nested]
      relationship_flag [of "[]" False 0 "[]" "Suc (Suc (Suc 0))" ?nested] i
    by simp_all
  have s: "rel_block_at ?flat 0" "rel_block_at ?flat (Suc 0)" "rel_block_at ?flat (Suc (Suc 0))"
    using relationship_flag [of "[]" False 0 "[]" 0 ?flat]
      relationship_flag [of "[]" False 0 "[]" "Suc 0" ?flat]
      relationship_flag [of "[]" False 0 "[]" "Suc (Suc 0)" ?flat] f
    by simp_all
  have "check_cardinality ?nested [] = []"
    unfolding check_cardinality_eq by (simp add: applied_def r a)
  moreover have "check_cardinality ?flat [] = [cardinality_msg 2 ''A -> B [maybe]'']"
    unfolding check_cardinality_eq by (simp add: applied_def s a)
  moreover have "rel_block_at ?nested 1" "\<not> rel_block_at ?nested 2"
    using r by (simp_all add: numeral_2_eq_2)
  ultimately show ?thesis
    by simp
qed

section \<open>Line numbers\<close>

text \<open>
  C9. An issue that names a line names one of the document: its number is at least 1 and
  at most the number of lines. Every issue is the header, notation or mismatched-braces
  issue, or names a line; the empty document gets the header and the notation issue only.
\<close>

theorem line_numbers_in_range:
  "(x \<in> set (check_lines ls) \<and> cites x N \<longrightarrow> 1 \<le> N \<and> N \<le> length ls)
   \<and> (x \<in> set (check_lines ls) \<longrightarrow>
        x = header_msg \<or> x = notation_msg \<or> x = mismatched_msg \<or> (\<exists>M. cites x M))
   \<and> check_lines [] = [header_msg, notation_msg]"
proof (intro conjI impI)
  assume "x \<in> set (check_lines ls) \<and> cites x N"
  then show "1 \<le> N" and "N \<le> length ls"
    by (auto simp: in_check_lines in_check_header in_check_notation in_check_braces
        in_check_decls in_decl_body in_check_cardinality in_arrow_issues in_check_quotes
        cites_none cites_unmatched cites_entity cites_relationship cites_cardinality
        cites_quoted)
next
  assume "x \<in> set (check_lines ls)"
  then show "x = header_msg \<or> x = notation_msg \<or> x = mismatched_msg \<or> (\<exists>M. cites x M)"
    by (auto simp: in_check_lines in_check_header in_check_notation in_check_braces
        in_check_decls in_decl_body in_check_cardinality in_arrow_issues in_check_quotes
        cites_unmatched cites_entity cites_relationship cites_cardinality cites_quoted)
next
  show "check_lines [] = [header_msg, notation_msg]"
    by (simp add: check_lines_eq check_header_def check_notation_def check_braces_eq
        check_decls_eq check_cardinality_eq check_quotes_eq)
qed

theorem line_numbers_in_range_witness:
  "entity_msg 2 ''entity 2Bad {'' \<in> set (check_lines [''}'', ''entity 2Bad {''])
   \<and> cites (entity_msg 2 ''entity 2Bad {'') 2
   \<and> (1::nat) \<le> 2 \<and> 2 \<le> length [''}'', ''entity 2Bad {'']
   \<and> \<not> cites (entity_msg 2 ''entity 2Bad {'') 3
   \<and> check_lines [] = [header_msg, notation_msg]"
proof -
  have m: "check_lines [''}'', ''entity 2Bad {''] =
      [header_msg, notation_msg, unmatched_msg 1, mismatched_msg, entity_msg 2 ''entity 2Bad {'']"
    by code_simp
  have c: "cites (entity_msg 2 ''entity 2Bad {'') 2"
    by code_simp
  have "\<not> (1 \<le> (3::nat) \<and> 3 \<le> length [''}'', ''entity 2Bad {''])"
    by simp
  then have "\<not> cites (entity_msg 2 ''entity 2Bad {'') 3"
    using line_numbers_in_range [of "entity_msg 2 ''entity 2Bad {''" "[''}'', ''entity 2Bad {'']" 3] m
    by auto
  then show ?thesis
    using line_numbers_in_range [of "entity_msg 2 ''entity 2Bad {''" "[''}'', ''entity 2Bad {'']" 2] m c
    by simp
qed

section \<open>Declarations\<close>

subsection \<open>Character classes\<close>

lemma range_members:
  assumes "list_all (\<lambda>n. char_of n \<in> S) [lo..<Suc hi]"
    and "lo \<le> (of_char c :: nat)" and "(of_char c :: nat) \<le> hi"
  shows "c \<in> S"
proof -
  have "(of_char c :: nat) \<in> set [lo..<Suc hi]"
    using assms(2,3) by auto
  with assms(1) have "char_of (of_char c :: nat) \<in> S"
    unfolding list_all_iff by blast
  then show ?thesis by simp
qed

lemma upper_range:
  "in_range CHR ''A'' CHR ''Z'' c \<longleftrightarrow> c \<in> set ''ABCDEFGHIJKLMNOPQRSTUVWXYZ''"
proof
  assume "in_range CHR ''A'' CHR ''Z'' c"
  then have "65 \<le> (of_char c :: nat)" and "(of_char c :: nat) \<le> 90"
    by (simp_all add: in_range_def)
  moreover have "list_all (\<lambda>n. char_of n \<in> set ''ABCDEFGHIJKLMNOPQRSTUVWXYZ'') [65..<Suc 90]"
    by code_simp
  ultimately show "c \<in> set ''ABCDEFGHIJKLMNOPQRSTUVWXYZ''"
    by (rule range_members [rotated])
next
  assume "c \<in> set ''ABCDEFGHIJKLMNOPQRSTUVWXYZ''"
  moreover have "list_all (in_range CHR ''A'' CHR ''Z'') ''ABCDEFGHIJKLMNOPQRSTUVWXYZ''"
    by code_simp
  ultimately show "in_range CHR ''A'' CHR ''Z'' c"
    unfolding list_all_iff by blast
qed

lemma lower_range:
  "in_range CHR ''a'' CHR ''z'' c \<longleftrightarrow> c \<in> set ''abcdefghijklmnopqrstuvwxyz''"
proof
  assume "in_range CHR ''a'' CHR ''z'' c"
  then have "97 \<le> (of_char c :: nat)" and "(of_char c :: nat) \<le> 122"
    by (simp_all add: in_range_def)
  moreover have "list_all (\<lambda>n. char_of n \<in> set ''abcdefghijklmnopqrstuvwxyz'') [97..<Suc 122]"
    by code_simp
  ultimately show "c \<in> set ''abcdefghijklmnopqrstuvwxyz''"
    by (rule range_members [rotated])
next
  assume "c \<in> set ''abcdefghijklmnopqrstuvwxyz''"
  moreover have "list_all (in_range CHR ''a'' CHR ''z'') ''abcdefghijklmnopqrstuvwxyz''"
    by code_simp
  ultimately show "in_range CHR ''a'' CHR ''z'' c"
    unfolding list_all_iff by blast
qed

lemma digit_range: "in_range CHR ''0'' CHR ''9'' c \<longleftrightarrow> digit c"
proof
  assume "in_range CHR ''0'' CHR ''9'' c"
  then have "48 \<le> (of_char c :: nat)" and "(of_char c :: nat) \<le> 57"
    by (simp_all add: in_range_def)
  moreover have "list_all (\<lambda>n. char_of n \<in> set ''0123456789'') [48..<Suc 57]"
    by code_simp
  ultimately have "c \<in> set ''0123456789''"
    by (rule range_members [rotated])
  then show "digit c"
    by (simp add: digit_def)
next
  assume "digit c"
  then have "c \<in> set ''0123456789''"
    by (simp add: digit_def)
  moreover have "list_all (in_range CHR ''0'' CHR ''9'') ''0123456789''"
    by code_simp
  ultimately show "in_range CHR ''0'' CHR ''9'' c"
    unfolding list_all_iff by blast
qed

lemma letter_iff: "letter c \<longleftrightarrow> in_range CHR ''A'' CHR ''Z'' c \<or> in_range CHR ''a'' CHR ''z'' c"
  unfolding upper_range lower_range letter_def by auto

lemma ident_first_iff: "ident_first c \<longleftrightarrow> letter c \<or> c = CHR ''_''"
  by (simp add: ident_first_def letter_iff)

lemma ident_rest_iff: "ident_rest c \<longleftrightarrow> name_char c"
  by (auto simp: ident_rest_def name_char_def letter_iff digit_range)

lemma ident_first_rest: "ident_first c \<Longrightarrow> ident_rest c"
  by (auto simp: ident_first_def ident_rest_def)

lemma ident_first_not_space: "ident_first c \<Longrightarrow> \<not> isspace c"
  by (auto simp: ident_first_def in_range_def isspace_def)

subsection \<open>The declaration patterns\<close>

lemma conc_single: "w \<in> conc {a} B \<longleftrightarrow> (\<exists>v. w = a @ v \<and> v \<in> B)"
  by (auto simp: conc_def)

lemma lang_identifier:
  "lang identifier_re = {c # w |c w. ident_first c \<and> list_all ident_rest w}"
proof -
  have "w \<in> conc {[c] |c. ident_first c} {w. list_all ident_rest w} \<longleftrightarrow>
      (\<exists>c v. w = c # v \<and> ident_first c \<and> list_all ident_rest v)" for w
    by (cases w) (auto simp: nil_in_conc cons_in_conc)
  then show ?thesis
    by (auto simp: identifier_re_def star_sym)
qed

lemma list_all_takeWhile: "list_all P (takeWhile P xs)"
  by (induction xs) simp_all

lemma takeWhile_spaces:
  assumes "list_all isspace sp" and "ident_first c"
  shows "takeWhile isspace (sp @ c # r) = sp" and "dropWhile isspace (sp @ c # r) = c # r"
  using assms by (induction sp) (simp_all add: ident_first_not_space)

lemma decl_match:
  "re_match (Then (lit kw) (Then (plus (Sym isspace)) identifier_re)) s \<longleftrightarrow>
     (\<exists>sp c r. s = kw @ sp @ c # r \<and> sp \<noteq> [] \<and> list_all isspace sp \<and> ident_first c)"
proof
  assume "re_match (Then (lit kw) (Then (plus (Sym isspace)) identifier_re)) s"
  then obtain p q where s: "s = p @ q"
      and p: "p \<in> conc {kw} (conc {w. w \<noteq> [] \<and> list_all isspace w} (lang identifier_re))"
    unfolding re_match_lang by (auto simp: lang_lit lang_plus_sym)
  from p obtain sp v where "p = kw @ sp @ v" "sp \<noteq> []" "list_all isspace sp"
      "v \<in> lang identifier_re"
    by (auto simp: conc_single in_conc)
  moreover from this obtain c w where "v = c # w" "ident_first c"
    by (auto simp: lang_identifier)
  ultimately have "s = kw @ sp @ c # (w @ q) \<and> sp \<noteq> [] \<and> list_all isspace sp \<and> ident_first c"
    using s by simp
  then show "\<exists>sp c r. s = kw @ sp @ c # r \<and> sp \<noteq> [] \<and> list_all isspace sp \<and> ident_first c"
    by blast
next
  assume "\<exists>sp c r. s = kw @ sp @ c # r \<and> sp \<noteq> [] \<and> list_all isspace sp \<and> ident_first c"
  then obtain sp c r where s: "s = kw @ sp @ c # r" and sp: "sp \<noteq> []" "list_all isspace sp"
      and c: "ident_first c"
    by blast
  have "[c] \<in> lang identifier_re"
    using c by (simp add: lang_identifier)
  with sp have "sp @ [c] \<in> conc {w. w \<noteq> [] \<and> list_all isspace w} (lang identifier_re)"
    by (auto simp: in_conc)
  then have "kw @ sp @ [c] \<in> lang (Then (lit kw) (Then (plus (Sym isspace)) identifier_re))"
    by (simp add: lang_lit lang_plus_sym conc_single)
  moreover have "s = (kw @ sp @ [c]) @ r"
    using s by simp
  ultimately show "re_match (Then (lit kw) (Then (plus (Sym isspace)) identifier_re)) s"
    unfolding re_match_lang by blast
qed

lemma decl_form_iff:
  "decl_form kw s \<longleftrightarrow>
     (\<exists>sp c r. s = kw @ sp @ c # r \<and> sp \<noteq> [] \<and> list_all isspace sp \<and> ident_first c)"
proof
  assume d: "decl_form kw s"
  define after where "after = drop (length kw) s"
  define sp where "sp = takeWhile isspace after"
  define rest where "rest = dropWhile isspace after"
  from d have kw: "s = kw @ after"
    by (simp add: decl_form_def startswith_iff after_def) auto
  have split: "after = sp @ rest"
    by (simp add: sp_def rest_def)
  from d have sp: "sp \<noteq> []" and ident: "is_identifier (takeWhile name_char rest)"
    by (simp_all add: decl_form_def Let_def after_def sp_def rest_def)
  from ident obtain c cs where t: "takeWhile name_char rest = c # cs" and c: "letter c \<or> c = CHR ''_''"
    by (auto simp: is_identifier_def split: list.splits)
  from t obtain r where rest: "rest = c # r"
    by (cases rest) (auto split: if_splits)
  have "list_all isspace sp"
    unfolding sp_def by (rule list_all_takeWhile)
  with kw split rest sp c have "s = kw @ sp @ c # r \<and> sp \<noteq> [] \<and> list_all isspace sp \<and> ident_first c"
    by (simp add: ident_first_iff)
  then show "\<exists>sp c r. s = kw @ sp @ c # r \<and> sp \<noteq> [] \<and> list_all isspace sp \<and> ident_first c"
    by blast
next
  assume "\<exists>sp c r. s = kw @ sp @ c # r \<and> sp \<noteq> [] \<and> list_all isspace sp \<and> ident_first c"
  then obtain sp c r where s: "s = kw @ sp @ c # r" and sp: "sp \<noteq> []" "list_all isspace sp"
      and c: "ident_first c"
    by blast
  have "name_char c"
    using c by (simp add: ident_first_rest ident_rest_iff [symmetric])
  then have "is_identifier (takeWhile name_char (c # r))"
    using c by (simp add: is_identifier_def ident_first_iff list_all_takeWhile)
  then show "decl_form kw s"
    using sp c by (simp add: decl_form_def s startswith_def takeWhile_spaces)
qed

lemma decl_patterns:
  "re_match ENTITY_DECL s = decl_form ''entity'' s"
  "re_match WEAK_ENTITY_DECL s = decl_form ''weak entity'' s"
  "re_match REL_DECL s = decl_form ''relationship'' s"
  unfolding ENTITY_DECL_def WEAK_ENTITY_DECL_def REL_DECL_def decl_match decl_form_iff
  by (rule refl)+

lemma entity_in_lines:
  "entity_msg N s \<in> set (check_lines ls) \<longleftrightarrow>
     1 \<le> N \<and> N \<le> length ls \<and> s = strip (ls ! (N - 1))
     \<and> (startswith s ''entity '' \<or> startswith s ''weak entity '')
     \<and> \<not> (re_match ENTITY_DECL s \<or> re_match WEAK_ENTITY_DECL s)"
proof -
  have ne: "entity_msg N s \<noteq> relationship_msg M t" for M t
  proof
    assume "entity_msg N s = relationship_msg M t"
    then have "take 9 (entity_msg N s) = take 9 (relationship_msg M t)" by simp
    then show False by (simp add: begins)
  qed
  have "entity_msg N s \<in> set (check_lines ls) \<longleftrightarrow> entity_msg N s \<in> set (check_decls ls [])"
    using part_of(4) [of "entity_msg N s" ls] by (auto simp: in_check_lines begins)
  also have "\<dots> \<longleftrightarrow> 1 \<le> N \<and> N \<le> length ls \<and> s = strip (ls ! (N - 1))
     \<and> (startswith s ''entity '' \<or> startswith s ''weak entity '')
     \<and> \<not> (re_match ENTITY_DECL s \<or> re_match WEAK_ENTITY_DECL s)"
    unfolding in_check_decls in_decl_body using ne by (auto simp: entity_msg_inj)
  finally show ?thesis .
qed

lemma relationship_in_lines:
  "relationship_msg N s \<in> set (check_lines ls) \<longleftrightarrow>
     1 \<le> N \<and> N \<le> length ls \<and> s = strip (ls ! (N - 1))
     \<and> startswith s ''relationship '' \<and> \<not> re_match REL_DECL s"
proof -
  have ne: "relationship_msg N s \<noteq> entity_msg M t" for M t
  proof
    assume "relationship_msg N s = entity_msg M t"
    then have "take 9 (relationship_msg N s) = take 9 (entity_msg M t)" by simp
    then show False by (simp add: begins)
  qed
  have "relationship_msg N s \<in> set (check_lines ls) \<longleftrightarrow>
      relationship_msg N s \<in> set (check_decls ls [])"
    using part_of(4) [of "relationship_msg N s" ls] by (auto simp: in_check_lines begins)
  also have "\<dots> \<longleftrightarrow> 1 \<le> N \<and> N \<le> length ls \<and> s = strip (ls ! (N - 1))
     \<and> startswith s ''relationship '' \<and> \<not> re_match REL_DECL s"
    unfolding in_check_decls in_decl_body using ne by (auto simp: relationship_msg_inj)
  finally show ?thesis .
qed

text \<open>
  C6. For a line whose trimmed text \<^verbatim>\<open>s\<close> starts with \<^verbatim>\<open>entity \<close> or \<^verbatim>\<open>weak entity \<close>,
  the issue \<^verbatim>\<open>Invalid entity declaration on line N: "s"\<close> is emitted exactly when \<^verbatim>\<open>s\<close>
  is not: an optional \<^verbatim>\<open>weak \<close>, then \<^verbatim>\<open>entity\<close>, whitespace, and an identifier (a letter
  or underscore, then letters, digits and underscores). The same holds for
  \<^verbatim>\<open>relationship \<close> and its issue. So \<^verbatim>\<open>entity 2Bad { ... }\<close> gets the entity issue.
\<close>

theorem declaration_issues:
  "1 \<le> N \<and> N \<le> length ls \<and> s = strip (ls ! (N - 1)) \<longrightarrow>
     (startswith s ''entity '' \<or> startswith s ''weak entity '' \<longrightarrow>
        (entity_msg N s \<in> set (check_lines ls) \<longleftrightarrow> \<not> entity_form s))
     \<and> (startswith s ''relationship '' \<longrightarrow>
        (relationship_msg N s \<in> set (check_lines ls) \<longleftrightarrow> \<not> relationship_form s))"
  by (simp add: entity_in_lines relationship_in_lines decl_patterns entity_form_def
      relationship_form_def)

theorem declaration_issues_witness:
  "entity_msg 2 ''entity 2Bad { id }'' \<in>
      set (check_lines [''erdiagram Shop'', ''  entity 2Bad { id }'', ''relationship  Owns {'',
        ''weak entity _w1 {''])
   \<and> \<not> entity_form ''entity 2Bad { id }''
   \<and> relationship_msg 3 ''relationship  Owns {'' \<notin>
      set (check_lines [''erdiagram Shop'', ''  entity 2Bad { id }'', ''relationship  Owns {'',
        ''weak entity _w1 {''])
   \<and> entity_msg 4 ''weak entity _w1 {'' \<notin>
      set (check_lines [''erdiagram Shop'', ''  entity 2Bad { id }'', ''relationship  Owns {'',
        ''weak entity _w1 {''])"
proof -
  let ?doc = "[''erdiagram Shop'', ''  entity 2Bad { id }'', ''relationship  Owns {'',
    ''weak entity _w1 {'']"
  have s: "''entity 2Bad { id }'' = strip (?doc ! (2 - 1))"
    "''relationship  Owns {'' = strip (?doc ! (3 - 1))"
    "''weak entity _w1 {'' = strip (?doc ! (4 - 1))"
    by code_simp+
  have p: "startswith ''entity 2Bad { id }'' ''entity ''"
    "startswith ''relationship  Owns {'' ''relationship ''"
    "startswith ''weak entity _w1 {'' ''weak entity ''"
    by code_simp+
  have f: "\<not> entity_form ''entity 2Bad { id }''" "relationship_form ''relationship  Owns {''"
    "entity_form ''weak entity _w1 {''"
    by code_simp+
  show ?thesis
    using declaration_issues [of 2 ?doc "''entity 2Bad { id }''"]
      declaration_issues [of 3 ?doc "''relationship  Owns {''"]
      declaration_issues [of 4 ?doc "''weak entity _w1 {''"] s p f
    by simp
qed

section \<open>Cardinalities\<close>

lemma lang_range_re:
  "c \<noteq> CHR 0x0A \<Longrightarrow> [a, CHR ''.'', c, b] \<in> lang (range_re a b)"
  by (simp add: range_re_def dot_def lang_lit conc_single in_conc del: lit.simps)

lemma forms_in_lang: "tok \<in> set card_forms \<Longrightarrow> tok \<in> lang card_alternatives"
  using lang_range_re [of "CHR ''.''" "CHR ''0''" "CHR ''N''"]
    lang_range_re [of "CHR ''.''" "CHR ''1''" "CHR ''N''"]
    lang_range_re [of "CHR ''.''" "CHR ''0''" "CHR ''1''"]
    lang_range_re [of "CHR ''.''" "CHR ''1''" "CHR ''1''"]
  by (auto simp: card_forms_def card_alternatives_def lang_lit simp del: lit.simps)

lemma closed_form_matches:
  assumes "tok \<in> set card_forms"
  shows "re_match card_re (CHR ''['' # tok @ CHR '']'' # q)"
proof -
  have "''['' @ tok @ '']'' \<in> lang card_re"
    using forms_in_lang [OF assms]
    by (simp add: card_re_def lang_lit conc_single in_conc del: lit.simps)
  moreover have "CHR ''['' # tok @ CHR '']'' # q = (''['' @ tok @ '']'') @ q"
    by simp
  ultimately show ?thesis
    unfolding re_match_lang by blast
qed

lemma role_form_matches:
  assumes "tok \<in> set card_forms" and "list_all isspace sp"
  shows "re_match card_role_re (CHR ''['' # tok @ sp @ CHR ''|'' # q)"
proof -
  have "sp @ ''|'' \<in> conc {w. list_all isspace w} {''|''}"
    using assms(2) by (auto simp: in_conc)
  then have "tok @ sp @ ''|'' \<in> conc (lang card_alternatives) (conc {w. list_all isspace w} {''|''})"
    using forms_in_lang [OF assms(1)] by (auto simp: in_conc)
  then have "''['' @ tok @ sp @ ''|'' \<in> lang card_role_re"
    by (simp add: card_role_re_def lang_lit conc_single star_sym del: lit.simps)
  moreover have "CHR ''['' # tok @ sp @ CHR ''|'' # q = (''['' @ tok @ sp @ ''|'') @ q"
    by simp
  ultimately show ?thesis
    unfolding re_match_lang by blast
qed

lemma holds_form_passes:
  assumes "holds_form r"
  shows "re_match card_re (CHR ''['' # r)
    \<or> (CHR ''|'' \<in> set r \<and> re_match card_role_re (CHR ''['' # r))"
proof -
  from assms obtain tok e where tok: "tok \<in> set card_forms" and r: "r = tok @ e"
      and e: "startswith e '']'' \<or> startswith (dropWhile isspace e) ''|''"
    unfolding holds_form_def list_ex_iff Let_def startswith_iff [of r]
    by auto
  from e show ?thesis
  proof
    assume "startswith e '']''"
    then obtain q where "e = CHR '']'' # q"
      by (auto simp: startswith_iff)
    with r closed_form_matches [OF tok, of q] show ?thesis by simp
  next
    assume "startswith (dropWhile isspace e) ''|''"
    then obtain q where q: "dropWhile isspace e = CHR ''|'' # q"
      by (auto simp: startswith_iff)
    have "e = takeWhile isspace e @ dropWhile isspace e"
      by simp
    with q have e': "e = takeWhile isspace e @ CHR ''|'' # q"
      by simp
    have "re_match card_role_re (CHR ''['' # tok @ takeWhile isspace e @ CHR ''|'' # q)"
      using tok by (rule role_form_matches) (rule list_all_takeWhile)
    moreover have "CHR ''|'' \<in> set r"
      by (subst r, subst e') simp
    ultimately show ?thesis
      using r e' by simp
  qed
qed

lemma recognized_passes:
  "recognized t \<Longrightarrow> re_search card_re t \<or> (CHR ''|'' \<in> set t \<and> re_search card_role_re t)"
proof (induction t)
  case Nil
  then show ?case by simp
next
  case (Cons c cs)
  from Cons.prems have "(c = CHR ''['' \<and> holds_form cs) \<or> recognized cs"
    by simp
  then show ?case
  proof
    assume "c = CHR ''['' \<and> holds_form cs"
    with holds_form_passes [of cs] show ?thesis
      by auto
  next
    assume "recognized cs"
    with Cons.IH show ?thesis
      by auto
  qed
qed

section \<open>A well-formed document passes\<close>

lemma brace_sum_snoc: "brace_sum (xs @ [x]) = brace_sum xs + delta x"
  by (simp add: brace_sum_def)

lemma balanced_prefix:
  "braces_balanced ls \<Longrightarrow> k \<le> length ls \<Longrightarrow> 0 \<le> brace_sum (take k ls)"
proof -
  assume "braces_balanced ls" and "k \<le> length ls"
  then have "\<forall>k \<in> set [0..<Suc (length ls)]. 0 \<le> brace_sum (take k ls)"
    and "k \<in> set [0..<Suc (length ls)]"
    unfolding braces_balanced_def list_all_iff by auto
  then show ?thesis
    by blast
qed

lemma balanced_counter:
  assumes "braces_balanced ls"
  shows "n \<le> length ls \<Longrightarrow> counter ls n = brace_sum (take n ls)"
proof (induction n)
  case 0
  show ?case by (simp add: brace_sum_def)
next
  case (Suc n)
  then have n: "n < length ls" by simp
  then have t: "brace_sum (take (Suc n) ls) = brace_sum (take n ls) + delta (ls ! n)"
    by (simp add: take_Suc_conv_app_nth brace_sum_snoc)
  have "0 \<le> brace_sum (take (Suc n) ls)"
    using assms Suc.prems by (rule balanced_prefix)
  with t Suc.IH n show ?case
    by simp
qed

lemma balanced_no_dip:
  assumes "braces_balanced ls" and "1 \<le> N" and "N \<le> length ls"
  shows "\<not> dips ls N"
proof -
  from assms(2) obtain i where N: "N = Suc i"
    by (cases N) auto
  with assms(3) have i: "i < length ls"
    by simp
  have "counter ls i + delta (ls ! i) = brace_sum (take (Suc i) ls)"
    using i balanced_counter [OF assms(1), of i]
    by (simp add: take_Suc_conv_app_nth brace_sum_snoc)
  moreover have "0 \<le> brace_sum (take (Suc i) ls)"
    using assms(1) balanced_prefix [of ls "Suc i"] i by simp
  ultimately show ?thesis
    by (simp add: dips_def N)
qed

lemma balanced_no_issue: "braces_balanced ls \<Longrightarrow> x \<notin> set (check_braces ls [])"
  using balanced_counter [of ls "length ls"] balanced_no_dip [of ls]
  by (auto simp: in_check_braces braces_balanced_def)

lemma well_formed_no_issue:
  assumes "header_ok ls" and "notation_ok ls" and "braces_balanced ls"
    and "declarations_ok ls" and "cardinalities_ok ls" and "unquoted ls"
  shows "check_lines ls = []"
proof -
  have "x \<notin> set (check_lines ls)" for x
  proof -
    have "x \<notin> set (check_header ls [])"
      using assms(1) by (auto simp: in_check_header header_ok_def split: list.splits)
    moreover have "x \<notin> set (check_notation ls [])"
      using assms(2) by (simp add: in_check_notation notation_ok_def)
    moreover have "x \<notin> set (check_braces ls [])"
      using assms(3) by (rule balanced_no_issue)
    moreover have "x \<notin> set (check_decls ls [])"
    proof
      assume "x \<in> set (check_decls ls [])"
      then obtain N where n: "1 \<le> N" "N \<le> length ls"
          and x: "x \<in> set (decl_body [] (N, ls ! (N - 1)))"
        unfolding in_check_decls by blast
      from n have "ls ! (N - 1) \<in> set ls"
        by simp
      with assms(4) have "(startswith (strip (ls ! (N - 1))) ''entity '' \<longrightarrow>
            decl_form ''entity'' (strip (ls ! (N - 1))))
          \<and> (startswith (strip (ls ! (N - 1))) ''weak entity '' \<longrightarrow>
            decl_form ''weak entity'' (strip (ls ! (N - 1))))
          \<and> (startswith (strip (ls ! (N - 1))) ''relationship '' \<longrightarrow>
            decl_form ''relationship'' (strip (ls ! (N - 1))))"
        unfolding declarations_ok_def list_all_iff by blast
      with x show False
        by (auto simp: in_decl_body decl_patterns)
    qed
    moreover have "x \<notin> set (check_cardinality ls [])"
    proof
      assume "x \<in> set (check_cardinality ls [])"
      then obtain N where n: "1 \<le> N" "N \<le> length ls" and r: "rel_block_at ls (N - 1)"
          and x: "x \<in> set (arrow_issues N (ls ! (N - 1)))"
        unfolding in_check_cardinality by blast
      from n have i: "N - 1 < length ls"
        by simp
      with r have "in_relationship ls (N - 1)"
        by (simp add: rel_block_at_eq)
      moreover from x obtain t where a: "contains (ls ! (N - 1)) ''->''"
          and t: "t \<in> set (split (ls ! (N - 1)) ''->'')"
          "CHR ''['' \<in> set t" "CHR '']'' \<in> set t"
          and bad: "\<not> re_search card_re t" "\<not> (CHR ''|'' \<in> set t \<and> re_search card_role_re t)"
        unfolding in_arrow_issues by blast
      moreover have "N - 1 \<in> set [0..<length ls]"
        using i by simp
      ultimately have "recognized t"
        using assms(5) unfolding cardinalities_ok_def list_all_iff by blast
      with bad show False
        using recognized_passes [of t] by blast
    qed
    moreover have "x \<notin> set (check_quotes ls [])"
      using assms(6) by (auto simp: in_check_quotes unquoted_def list_all_iff)
    ultimately show ?thesis
      by (simp add: in_check_lines)
  qed
  then show ?thesis
    by (cases "check_lines ls") auto
qed

text \<open>
  C1. A document whose first line, trimmed, starts with \<^verbatim>\<open>erdiagram\<close>, with a
  \<^verbatim>\<open>notation=\<close> line among its first 10, whose running brace count is never negative and
  ends at 0, whose declaration lines have the form of their declaration, whose bracketed
  segments on arrow lines in relationship blocks hold recognized cardinalities, and which
  has no double quote, gets no issue: \<^verbatim>\<open>check_file\<close> returns the empty list, and the
  program prints the pass message and exits with status 0.
\<close>

theorem well_formed_passes:
  assumes "fs path = Content text"
    and "header_ok (splitlines text)" and "notation_ok (splitlines text)"
    and "braces_balanced (splitlines text)" and "declarations_ok (splitlines text)"
    and "cardinalities_ok (splitlines text)" and "unquoted (splitlines text)"
  shows "check_file fs path = Inr []
    \<and> main path_str fs [prog, path] = Exit [pass_msg] 0"
proof -
  have "check_lines (splitlines text) = []"
    using assms(2-7) by (rule well_formed_no_issue)
  with assms(1) show ?thesis
    by (simp add: check_file_def main_def)
qed

theorem well_formed_passes_witness:
  "check_file
     (\<lambda>p. if p = ''shop.erd''
        then Content ''erdiagram Shop\<newline>notation=crowsfoot\<newline>entity Order {\<newline>  id\<newline>}\<newline>relationship Places {\<newline>  Customer[1] -> Order[0..N | orders]\<newline>}\<newline>''
        else Absent) ''shop.erd'' = Inr []
   \<and> main id
     (\<lambda>p. if p = ''shop.erd''
        then Content ''erdiagram Shop\<newline>notation=crowsfoot\<newline>entity Order {\<newline>  id\<newline>}\<newline>relationship Places {\<newline>  Customer[1] -> Order[0..N | orders]\<newline>}\<newline>''
        else Absent) [''biger_validator.py'', ''shop.erd''] = Exit [pass_msg] 0"
proof -
  let ?text = "''erdiagram Shop\<newline>notation=crowsfoot\<newline>entity Order {\<newline>  id\<newline>}\<newline>relationship Places {\<newline>  Customer[1] -> Order[0..N | orders]\<newline>}\<newline>''"
  have l: "splitlines ?text =
      [''erdiagram Shop'', ''notation=crowsfoot'', ''entity Order {'', ''  id'', ''}'',
       ''relationship Places {'', ''  Customer[1] -> Order[0..N | orders]'', ''}'']"
    by code_simp
  have "header_ok (splitlines ?text)"
    unfolding l by code_simp
  moreover have "notation_ok (splitlines ?text)"
    unfolding l by code_simp
  moreover have "braces_balanced (splitlines ?text)"
    unfolding l by code_simp
  moreover have "declarations_ok (splitlines ?text)"
    unfolding l by code_simp
  moreover have "cardinalities_ok (splitlines ?text)"
    unfolding l by code_simp
  moreover have "unquoted (splitlines ?text)"
    unfolding l by code_simp
  ultimately show ?thesis
    by (intro well_formed_passes) simp_all
qed

text \<open>
  C2. Inside a relationship block, on a line with \<^verbatim>\<open>->\<close>, every segment between the
  arrows that has a \<^verbatim>\<open>[\<close> and a \<^verbatim>\<open>]\<close> should get the issue
  \<^verbatim>\<open>Unrecognized cardinality on line N\<close> exactly when its bracket holds none of
  \<^verbatim>\<open>0..N\<close>, \<^verbatim>\<open>1..N\<close>, \<^verbatim>\<open>0..1\<close>, \<^verbatim>\<open>1..1\<close>, \<^verbatim>\<open>N\<close>, \<^verbatim>\<open>1\<close> (a role may follow
  \<^verbatim>\<open>|\<close>). The pattern of the code writes the second dot of a range unescaped, so any
  character passes there: \<^verbatim>\<open>[0.xN]\<close> is not a recognized cardinality, and the document
  that has it gets no issue, where \<^verbatim>\<open>[maybe]\<close> gets one.
\<close>

theorem wildcard_cardinality:
  "check_lines [''erdiagram Shop'', ''notation=crowsfoot'', ''relationship Owns {'',
      ''  A -> B [0.xN]'', ''}''] = []
   \<and> rel_block_at [''erdiagram Shop'', ''notation=crowsfoot'', ''relationship Owns {'',
      ''  A -> B [0.xN]'', ''}''] 3
   \<and> split ''  A -> B [0.xN]'' ''->'' = [''  A '', '' B [0.xN]'']
   \<and> \<not> recognized '' B [0.xN]''
   \<and> check_lines [''erdiagram Shop'', ''notation=crowsfoot'', ''relationship Owns {'',
      ''  A -> B [maybe]'', ''}''] = [cardinality_msg 4 ''A -> B [maybe]'']
   \<and> check_lines [''erdiagram Shop'', ''notation=crowsfoot'', ''relationship Owns {'',
      ''  A -> B [0..N]'', ''  B -> A [1]'', ''}''] = []"
  by code_simp

theorem wildcard_cardinality_witness:
  "cardinality_msg 4 ''A -> B [0.xN]'' \<notin>
     set (check_lines [''erdiagram Shop'', ''notation=crowsfoot'', ''relationship Owns {'',
       ''  A -> B [0.xN]'', ''}''])
   \<and> \<not> recognized '' B [0.xN]''"
  using wildcard_cardinality by simp

section \<open>What the command line does\<close>

text \<open>
  C4. The command line: with an argument count other than one path, the usage message and
  status 2; with a path that does not exist, \<^verbatim>\<open>File not found: <path>\<close> and status 2;
  with no issue, the pass message and status 0; with issues, the line
  \<^verbatim>\<open>Found issues:\<close>, then each issue in order behind \<^verbatim>\<open>- \<close>, and status 1.
\<close>

theorem main_outcomes:
  "(length argv \<noteq> 2 \<longrightarrow> main path_str fs argv = Exit [usage_msg] 2)
   \<and> (length argv = 2 \<and> fs (argv ! 1) = Absent \<longrightarrow>
        main path_str fs argv = Exit [''File not found: '' @ path_str (argv ! 1)] 2)
   \<and> (length argv = 2 \<and> fs (argv ! 1) = Content text \<and> check_lines (splitlines text) = [] \<longrightarrow>
        main path_str fs argv = Exit [pass_msg] 0)
   \<and> (length argv = 2 \<and> fs (argv ! 1) = Content text \<and> check_lines (splitlines text) \<noteq> [] \<longrightarrow>
        main path_str fs argv =
          Exit (''Found issues:'' # map (\<lambda>it. ''- '' @ it) (check_lines (splitlines text))) 1)"
  by (simp add: main_def check_file_def Let_def)

theorem main_outcomes_witness:
  "main id (\<lambda>p. Absent) [''biger_validator.py''] = Exit [usage_msg] 2
   \<and> main id (\<lambda>p. Absent) [''biger_validator.py'', ''model.erd''] =
       Exit [''File not found: model.erd''] 2
   \<and> main id
        (\<lambda>p. Content ''erdiagram Shop\<newline>notation=crowsfoot\<newline>entity Order {\<newline>  id\<newline>}\<newline>'')
        [''biger_validator.py'', ''model.erd''] = Exit [pass_msg] 0
   \<and> main id (\<lambda>p. Content ''notation=crowsfoot\<newline>entity Order {\<newline>id\<newline>}\<newline>'')
        [''biger_validator.py'', ''model.erd''] = Exit [''Found issues:'', ''- '' @ header_msg] 1"
proof -
  have ok: "check_lines (splitlines
      ''erdiagram Shop\<newline>notation=crowsfoot\<newline>entity Order {\<newline>  id\<newline>}\<newline>'') = []"
    by code_simp
  have bad: "check_lines (splitlines ''notation=crowsfoot\<newline>entity Order {\<newline>id\<newline>}\<newline>'')
      = [header_msg]"
    by code_simp
  show ?thesis
    using main_outcomes [of "[''biger_validator.py'']" id "\<lambda>p. Absent"]
      main_outcomes [of "[''biger_validator.py'', ''model.erd'']" id "\<lambda>p. Absent"]
      main_outcomes [of "[''biger_validator.py'', ''model.erd'']" id
        "\<lambda>p. Content ''erdiagram Shop\<newline>notation=crowsfoot\<newline>entity Order {\<newline>  id\<newline>}\<newline>''"
        "''erdiagram Shop\<newline>notation=crowsfoot\<newline>entity Order {\<newline>  id\<newline>}\<newline>''"]
      main_outcomes [of "[''biger_validator.py'', ''model.erd'']" id
        "\<lambda>p. Content ''notation=crowsfoot\<newline>entity Order {\<newline>id\<newline>}\<newline>''"
        "''notation=crowsfoot\<newline>entity Order {\<newline>id\<newline>}\<newline>''"]
    by (simp add: ok bad)
qed

end
